theory Spec2Isabelle
  imports Main "HOL-Library.Char_ord" "HOL-Library.Multiset"
begin

section \<open>QuizGame.cpp: data model\<close>

text \<open>
  The structs of the source are records. Field \<open>text\<close> of \<open>Question\<close> is named
  \<open>qtext\<close>, and the \<open>score\<close> fields of \<open>QuizResult\<close> and \<open>ScoreEntry\<close> are named
  \<open>res_score\<close> and \<open>entry_score\<close>, to keep them apart from the local variable
  \<open>score\<close> of \<open>startQuiz\<close>. The C arrays are lists; \<open>int\<close> and \<open>time_t\<close> are
  mathematical integers (a session asks at most ten questions, so the counters stay far
  from the limits of a 32-bit \<open>int\<close>; clock readings are taken as they come and the
  casts of their differences to \<open>int\<close> are not truncated).
\<close>

definition MAX_OPTIONS :: nat where "MAX_OPTIONS = 4"
definition MAX_QUIZ_QUESTIONS :: nat where "MAX_QUIZ_QUESTIONS = 50"
definition DEFAULT_TIME_PER_QUESTION :: int where "DEFAULT_TIME_PER_QUESTION = 10"
definition EXTRA_TIME_AMOUNT :: int where "EXTRA_TIME_AMOUNT = 10"

record Question =
  qtext :: string
  options :: "string list"
  correctIndex :: int
  originalCorrectIndex :: int
  difficulty :: int

record QuizResult =
  playerName :: string
  res_score :: int
  correct :: int
  wrong :: int
  timestamp :: int
  questionIndices :: "int list"
  answers :: "int list"
  qCount :: nat
  remainingSecondsForCurrent :: int

record ScoreEntry =
  name :: string
  entry_score :: int
  datetime :: string

text \<open>
  A file of the disk: it cannot be opened at all, it does not exist yet, or it has a
  content. An \<open>ofstream\<close> creates a missing file; an \<open>ifstream\<close> fails on one.
\<close>

datatype disk_file = Unavailable | Absent | Content string

text \<open>
  \<open>rand()\<close>: the pseudo-random source is any sequence of naturals; the functions that
  draw from it take the number of draws made so far and return the new number.
\<close>

type_synonym rng = "nat \<Rightarrow> nat"

section \<open>Printing and reading integers\<close>

text \<open>\<open>ostream << int\<close>: decimal digits, with a minus sign for a negative number.\<close>

definition digit_char :: "nat \<Rightarrow> char" where
  "digit_char d = char_of (48 + d)"

function digits :: "nat \<Rightarrow> string" where
  "digits n = (if n < 10 then [digit_char n] else digits (n div 10) @ [digit_char (n mod 10)])"
  by pat_completeness auto
termination
  by (relation "measure id") auto

declare digits.simps [simp del]

definition show_int :: "int \<Rightarrow> string" where
  "show_int i = (if i < 0 then CHR ''-'' # digits (nat (- i)) else digits (nat i))"

text \<open>
  The integer scanner shared by \<open>stoi\<close> and \<open>sscanf("%d")\<close>: leading white space, an
  optional sign, then at least one decimal digit; the rest of the string is returned.
\<close>

definition is_space :: "char \<Rightarrow> bool" where
  "is_space c = (c = CHR '' '' \<or> c = CHR 0x09 \<or> c = CHR 0x0A \<or> c = CHR 0x0B \<or> c = CHR 0x0C \<or> c = CHR 0x0D)"

definition is_digit :: "char \<Rightarrow> bool" where
  "is_digit c = (CHR ''0'' \<le> c \<and> c \<le> CHR ''9'')"

definition digit_val :: "char \<Rightarrow> nat" where
  "digit_val c = of_char c - 48"

definition digits_val :: "string \<Rightarrow> nat" where
  "digits_val ds = foldl (\<lambda>acc c. 10 * acc + digit_val c) 0 ds"

definition scan_int :: "string \<Rightarrow> (int \<times> string) option" where
  "scan_int s =
     (let s1 = dropWhile is_space s;
          neg = (s1 \<noteq> [] \<and> hd s1 = CHR ''-'');
          s2 = (if s1 \<noteq> [] \<and> (hd s1 = CHR ''-'' \<or> hd s1 = CHR ''+'') then tl s1 else s1);
          ds = takeWhile is_digit s2
      in if ds = [] then None
         else Some (if neg then - int (digits_val ds) else int (digits_val ds),
                    dropWhile is_digit s2))"

text \<open>
  \<open>std::stoi\<close> throws \<open>invalid_argument\<close> when no digit is found and \<open>out_of_range\<close>
  when the value does not fit an \<open>int\<close>; both are \<open>None\<close> here, as every caller
  catches them alike.
\<close>

definition stoi :: "string \<Rightarrow> int option" where
  "stoi s = (case scan_int s of
               None \<Rightarrow> None
             | Some (v, rest) \<Rightarrow> if - (2 ^ 31) \<le> v \<and> v \<le> 2 ^ 31 - 1 then Some v else None)"

section \<open>Shuffling\<close>

text \<open>
  \<open>shuffleIntArray\<close>: for \<open>i\<close> from \<open>n - 1\<close> down to 1, swap \<open>arr[i]\<close> with
  \<open>arr[rand() % (i + 1)]\<close>.
\<close>

fun shuffle_from :: "rng \<Rightarrow> nat \<Rightarrow> int list \<Rightarrow> nat \<Rightarrow> int list \<times> nat" where
  "shuffle_from rnd p arr 0 = (arr, p)"
| "shuffle_from rnd p arr (Suc k) =
     (let j = rnd p mod (Suc k + 1)
      in shuffle_from rnd (Suc p) (arr[Suc k := arr ! j, j := arr ! Suc k]) k)"

definition shuffleIntArray :: "rng \<Rightarrow> nat \<Rightarrow> int list \<Rightarrow> nat \<Rightarrow> int list \<times> nat" where
  "shuffleIntArray rnd p arr n = shuffle_from rnd p arr (n - 1)"

definition shuffleOptions :: "rng \<Rightarrow> nat \<Rightarrow> Question \<Rightarrow> Question \<times> nat" where
  "shuffleOptions rnd p q =
     (let (idx, p') = shuffleIntArray rnd p [0, 1, 2, 3] MAX_OPTIONS;
          newOpts = map (\<lambda>i. options q ! nat (idx ! i)) [0..<MAX_OPTIONS];
          newCorrect = fold (\<lambda>i nc. if idx ! i = originalCorrectIndex q then int i else nc)
                         [0..<MAX_OPTIONS] 0
      in (q\<lparr>options := newOpts, correctIndex := newCorrect\<rparr>, p'))"

text \<open>
  \<open>apply5050\<close> returns the new \<open>visibleOptions\<close> array and \<open>visibleCount\<close>. The source
  collects the wrong indices in an array of three; that fits exactly when
  \<open>correctIndex\<close> is one of 0..3, which \<open>shuffleOptions\<close> guarantees.
\<close>

definition apply5050 :: "rng \<Rightarrow> nat \<Rightarrow> Question \<Rightarrow> int list \<Rightarrow> (int list \<times> nat) \<times> nat" where
  "apply5050 rnd p q visibleOptions =
     (let wrongs0 = filter (\<lambda>i. i \<noteq> correctIndex q) [0, 1, 2, 3];
          (wrongs, p') = shuffleIntArray rnd p wrongs0 (length wrongs0);
          v = visibleOptions[0 := correctIndex q, 1 := wrongs ! 0];
          v' = (if v ! 0 > v ! 1 then v[0 := v ! 1, 1 := v ! 0] else v)
      in ((v', 2), p'))"

text \<open>
  The test of \<open>displayQuestionWithVisibleOptions\<close>: option \<open>i\<close> is shown when it occurs
  among the first \<open>visibleCount\<close> entries of \<open>visibleOptions\<close>, and masked otherwise.
\<close>

definition shown :: "int list \<Rightarrow> nat \<Rightarrow> int \<Rightarrow> bool" where
  "shown visibleOptions visibleCount i = (i \<in> set (take visibleCount visibleOptions))"

section \<open>The progress snapshot\<close>

text \<open>
  \<open>saveProgress\<close> rewrites the whole save file: the name, the four numbers, the answers
  and the question indices recorded so far, and the remaining seconds of the current
  question.
\<close>

definition saveProgress_text :: "QuizResult \<Rightarrow> string" where
  "saveProgress_text r =
     playerName r @ ''\<newline>'' @
     show_int (res_score r) @ '' '' @ show_int (correct r) @ '' '' @ show_int (wrong r) @ '' '' @
       show_int (timestamp r) @ ''\<newline>'' @
     concat (map (\<lambda>i. show_int (answers r ! i) @ '' '') [0..<qCount r]) @ ''\<newline>'' @
     concat (map (\<lambda>i. show_int (questionIndices r ! i) @ '' '') [0..<qCount r]) @ ''\<newline>'' @
     show_int (remainingSecondsForCurrent r) @ ''\<newline>''"

definition saveProgress :: "disk_file \<Rightarrow> QuizResult \<Rightarrow> disk_file" where
  "saveProgress f r = (case f of Unavailable \<Rightarrow> Unavailable | _ \<Rightarrow> Content (saveProgress_text r))"

section \<open>startQuiz: the state of a session\<close>

text \<open>
  The local variables of \<open>startQuiz\<close>, the save file, and \<open>out\<close>, the notices printed
  by the lifeline menu, the outcomes and the evaluation, one entry per notice and without
  its line ends (the rendering of the question and of the countdown is left out).
  \<open>allCount\<close> is the length of \<open>allQ\<close>, and the reference \<open>q\<close> is
  \<open>quizQuestions[qi]\<close>.
\<close>

record quiz =
  allQ :: "Question list"
  quizQuestions :: "Question list"
  quizCount :: nat
  lif_5050 :: bool
  lif_skip :: bool
  lif_replace :: bool
  lif_extra :: bool
  score :: int
  correctCount :: int
  wrongCount :: int
  streak :: int
  result :: QuizResult
  qi :: nat
  visibleOptions :: "int list"
  visibleCount :: nat
  remainingSeconds :: int
  endTime :: int
  rpos :: nat
  saveFile :: disk_file
  out :: "string list"

text \<open>
  What the outside world supplies to one pass of the polling loop: the key returned by
  \<open>getNonBlockingKey\<close> (\<open>CHR 0x00\<close> for none), the number entered in the lifeline menu,
  and the reading of \<open>time(NULL)\<close> at each place that asks for it. A pass uses the
  fields on its path only.
\<close>

record tick =
  key :: char
  t_key :: int
  li :: int
  t_menu :: int
  t_check :: int
  t_stamp :: int
  t_rem :: int
  t_done :: int
  t_start :: int

text \<open>
  How one pass of the polling loop ends: the loop goes on, it is left to redraw the
  question, or the question is completed by an answer key, by a skip or by the timeout.
\<close>

datatype outcome = Answered int | Skipped | TimedOut

datatype flow = Continue quiz | Redraw quiz | Completed outcome quiz

definition say :: "string \<Rightarrow> quiz \<Rightarrow> quiz" where
  "say m s = s\<lparr>out := out s @ [m]\<rparr>"

definition curq :: "quiz \<Rightarrow> Question" where
  "curq s = quizQuestions s ! qi s"

definition set_answer :: "int \<Rightarrow> quiz \<Rightarrow> quiz" where
  "set_answer a s =
     s\<lparr>result := (result s)\<lparr>answers := (answers (result s))[qCount (result s) := a]\<rparr>\<rparr>"

definition set_saved_rem :: "int \<Rightarrow> quiz \<Rightarrow> quiz" where
  "set_saved_rem v s = s\<lparr>result := (result s)\<lparr>remainingSecondsForCurrent := v\<rparr>\<rparr>"

text \<open>The negative marking, written twice in the source (time-out and wrong answer).\<close>

definition penalty :: "Question \<Rightarrow> int" where
  "penalty q = (if difficulty q = 1 then 2 else if difficulty q = 2 then 3 else 5)"

text \<open>
  The search of the Replace lifeline: at most \<open>allCount\<close> draws from the bank, the first
  one whose text differs from the current question's is copied and its options shuffled.
\<close>

fun replace_search :: "rng \<Rightarrow> Question list \<Rightarrow> string \<Rightarrow> nat \<Rightarrow> nat \<Rightarrow> Question option \<times> nat" where
  "replace_search rnd bank txt 0 p = (None, p)"
| "replace_search rnd bank txt (Suc n) p =
     (let r = rnd p mod length bank
      in if qtext (bank ! r) \<noteq> txt
         then (let (cand, p') = shuffleOptions rnd (Suc p) (bank ! r) in (Some cand, p'))
         else replace_search rnd bank txt n (Suc p))"

definition lifeline_menu :: "rng \<Rightarrow> tick \<Rightarrow> quiz \<Rightarrow> flow" where
  "lifeline_menu rnd t s0 =
     (let rem = max 0 (endTime s0 - t_key t);
          s = set_saved_rem rem (s0\<lparr>remainingSeconds := rem\<rparr>)
      in if li t = 0 then Redraw (say ''Lifeline cancelled. Resuming timer.'' s)
         else if li t = 1 then
           (if \<not> lif_5050 s then Redraw (say ''50/50 already used.'' s)
            else (let ((v, c), p') = apply5050 rnd (rpos s) (curq s) (visibleOptions s)
                  in Redraw (say ''50/50 used. Two wrong options removed. Resuming timer.''
                       (s\<lparr>lif_5050 := False, visibleOptions := v, visibleCount := c, rpos := p'\<rparr>))))
         else if li t = 2 then
           (if \<not> lif_skip s then Redraw (say ''Skip already used.'' s)
            else Completed Skipped
                   (set_saved_rem 0 (set_answer 0
                      (say ''Question skipped. Moving to next question.'' (s\<lparr>lif_skip := False\<rparr>)))))
         else if li t = 3 then
           (if \<not> lif_replace s then Redraw (say ''Replace already used.'' s)
            else (let s1 = s\<lparr>lif_replace := False\<rparr>;
                      (found, p') = replace_search rnd (allQ s1) (qtext (curq s1)) (length (allQ s1)) (rpos s1);
                      s2 = (case found of
                              None \<Rightarrow> say ''No replacement found.'' s1
                            | Some cand \<Rightarrow>
                                say ''Question replaced. Remaining time preserved.''
                                  (s1\<lparr>quizQuestions := (quizQuestions s1)[qi s1 := cand],
                                      visibleOptions := [0, 1, 2, 3], visibleCount := 4\<rparr>))
                  in Redraw (s2\<lparr>endTime := t_menu t + remainingSeconds s2, rpos := p'\<rparr>)))
         else if li t = 4 then
           (if \<not> lif_extra s then Redraw (say ''Extra Time already used.'' s)
            else if remainingSeconds s \<le> 0
            then Redraw (say ''Cannot use Extra Time: question already expired.'' s)
            else (let r' = remainingSeconds s + EXTRA_TIME_AMOUNT
                  in Redraw (say (''Extra Time applied. +'' @ show_int EXTRA_TIME_AMOUNT @
                                  ''s added. New remaining: '' @ show_int r' @ ''s. Resuming timer.'')
                       (s\<lparr>lif_extra := False, remainingSeconds := r', endTime := t_menu t + r'\<rparr>))))
         else Redraw s)"

definition check_timeout :: "tick \<Rightarrow> quiz \<Rightarrow> flow" where
  "check_timeout t s =
     (if t_check t \<ge> endTime s
      then (let q = curq s;
                s1 = set_saved_rem 0 (set_answer 0
                       (say (''Time's up! Correct answer: '' @ options q ! nat (correctIndex q)) s))
            in Completed TimedOut
                 (s1\<lparr>wrongCount := wrongCount s1 + 1, streak := 0, score := score s1 - penalty q\<rparr>))
      else Continue s)"

text \<open>One pass of the polling loop (the body of \<open>while (innerLoop && !questionCompleted)\<close>).\<close>

definition poll :: "rng \<Rightarrow> quiz \<Rightarrow> tick \<Rightarrow> flow" where
  "poll rnd s t =
     (let k = key t
      in if k \<noteq> CHR 0x00 \<and> CHR ''1'' \<le> k \<and> k \<le> CHR ''4'' then
           (let ans = of_char k - of_char (CHR ''0'');
                rem = max 0 (endTime s - t_key t)
            in Completed (Answered ans) (set_saved_rem rem ((set_answer ans s)\<lparr>remainingSeconds := rem\<rparr>)))
         else if k \<noteq> CHR 0x00 \<and> (k = CHR ''L'' \<or> k = CHR ''l'') then lifeline_menu rnd t s
         else if k \<noteq> CHR 0x00 \<and> (k = CHR ''S'' \<or> k = CHR ''s'') then
           (if lif_skip s
            then Completed Skipped
                   (set_saved_rem 0 (set_answer 0
                      (say ''Quick skip used. Moving to next question.'' (s\<lparr>lif_skip := False\<rparr>))))
            else check_timeout t (say ''Skip already used.'' s))
         else check_timeout t s)"

text \<open>
  The auto-save after the polling loop is left, and the evaluation of the recorded answer
  once the question is completed.
\<close>

definition autosave :: "bool \<Rightarrow> tick \<Rightarrow> quiz \<Rightarrow> quiz" where
  "autosave questionCompleted t s =
     (let s1 = s\<lparr>result := (result s)\<lparr>res_score := score s, correct := correctCount s,
                                       wrong := wrongCount s, timestamp := t_stamp t\<rparr>\<rparr>;
          s2 = (if \<not> questionCompleted
                then (let rem = max 0 (endTime s1 - t_rem t)
                      in set_saved_rem rem (s1\<lparr>remainingSeconds := rem\<rparr>))
                else set_saved_rem 0 s1)
      in s2\<lparr>saveFile := saveProgress (saveFile s2) (result s2)\<rparr>)"

definition evaluate :: "quiz \<Rightarrow> quiz" where
  "evaluate s =
     (let q = curq s; userAns = answers (result s) ! qCount (result s)
      in if userAns = 0 then say ''Question not answered.'' s
         else if userAns - 1 = correctIndex q then
           (let add = (if difficulty q = 1 then 10 else if difficulty q = 2 then 15 else 20);
                s1 = (say ''Correct!'' s)\<lparr>score := score s + add, correctCount := correctCount s + 1,
                                          streak := streak s + 1\<rparr>;
                s2 = (if streak s1 = 3 then (say ''Streak! +5 bonus'' s1)\<lparr>score := score s1 + 5\<rparr>
                      else if streak s1 = 5 then (say ''Big Streak! +15 bonus'' s1)\<lparr>score := score s1 + 15\<rparr>
                      else s1)
            in say (''Earned '' @ show_int add @ '' points.'') s2)
         else (let s1 = say (''Wrong! Correct answer: '' @ options q ! nat (correctIndex q)) s
               in s1\<lparr>wrongCount := wrongCount s1 + 1, streak := 0, score := score s1 - penalty q\<rparr>))"

definition finish_question :: "tick \<Rightarrow> quiz \<Rightarrow> quiz" where
  "finish_question t s =
     (let r = (result s)\<lparr>res_score := score s, correct := correctCount s, wrong := wrongCount s,
                         timestamp := t_done t, qCount := qCount (result s) + 1\<rparr>
      in s\<lparr>result := r, saveFile := saveProgress (saveFile s) r\<rparr>)"

text \<open>The head of the \<open>for\<close> loop body: the set-up of question \<open>qi\<close>, started at time \<open>now\<close>.\<close>

definition begin_question :: "int \<Rightarrow> quiz \<Rightarrow> quiz" where
  "begin_question now s =
     (let r = (result s)\<lparr>questionIndices := (questionIndices (result s))[qCount (result s) := int (qi s)],
                         answers := (answers (result s))[qCount (result s) := 0]\<rparr>;
          saved = remainingSecondsForCurrent r;
          rem = (if saved > 0 then saved else DEFAULT_TIME_PER_QUESTION);
          r' = (if saved > 0 then r\<lparr>remainingSecondsForCurrent := 0\<rparr> else r)
      in s\<lparr>result := r', visibleOptions := [0, 1, 2, 3], visibleCount := 4,
           remainingSeconds := rem, endTime := now + rem\<rparr>)"

text \<open>
  One pass of the polling loop together with what follows it: nothing, the auto-save and
  a redraw, or the auto-save, the evaluation, the snapshot of the finished question and
  the set-up of the next one. A session is a run over the passes.
\<close>

definition complete_question :: "tick \<Rightarrow> quiz \<Rightarrow> quiz" where
  "complete_question t s1 =
     (let s2 = finish_question t (evaluate (autosave True t s1));
          s3 = s2\<lparr>qi := qi s2 + 1\<rparr>
      in if qi s3 < quizCount s3 then begin_question (t_start t) s3 else s3)"

definition tick_step :: "rng \<Rightarrow> quiz \<Rightarrow> tick \<Rightarrow> quiz" where
  "tick_step rnd s t =
     (if qi s \<ge> quizCount s then s
      else case poll rnd s t of
             Continue s1 \<Rightarrow> s1
           | Redraw s1 \<Rightarrow> autosave False t s1
           | Completed oc s1 \<Rightarrow> complete_question t s1)"

definition run :: "rng \<Rightarrow> quiz \<Rightarrow> tick list \<Rightarrow> quiz" where
  "run rnd s ts = foldl (tick_step rnd) s ts"

text \<open>
  The start of \<open>startQuiz\<close> on a loaded bank. \<open>select_questions\<close> is the choice of the
  questions: the unused shuffle of \<open>qIndices\<close>, the pool of the chosen difficulty (the
  whole bank when fewer than ten match), its shuffle, and the first ten questions of the
  pool with their options shuffled. \<open>startQuiz_init\<close> adds the initial values of the
  locals and the set-up of the first question.
\<close>

fun shuffle_each :: "rng \<Rightarrow> nat \<Rightarrow> Question list \<Rightarrow> Question list \<times> nat" where
  "shuffle_each rnd p [] = ([], p)"
| "shuffle_each rnd p (q # qs) =
     (let (q', p1) = shuffleOptions rnd p q; (qs', p2) = shuffle_each rnd p1 qs in (q' # qs', p2))"

definition select_questions :: "rng \<Rightarrow> Question list \<Rightarrow> int \<Rightarrow> (Question list \<times> nat) \<times> nat" where
  "select_questions rnd bank diff =
     (let allCount = length bank;
          (qIndices, p1) = shuffleIntArray rnd 0 (map int [0..<allCount]) allCount;
          pool0 = filter (\<lambda>i. difficulty (bank ! nat i) = diff) (map int [0..<allCount]);
          pool1 = (if length pool0 < 10 then map int [0..<allCount] else pool0);
          (pool, p2) = shuffleIntArray rnd p1 pool1 (length pool1);
          quizCount0 = (if length pool > 10 then 10 else length pool);
          (qs, p3) = shuffle_each rnd p2 (map (\<lambda>i. bank ! nat (pool ! i)) [0..<quizCount0])
      in ((qs, quizCount0), p3))"

definition startQuiz_init ::
    "rng \<Rightarrow> Question list \<Rightarrow> string \<Rightarrow> int \<Rightarrow> int \<Rightarrow> int \<Rightarrow> disk_file \<Rightarrow> quiz" where
  "startQuiz_init rnd bank name0 diff t_created t_first save =
     (let ((qs, quizCount0), p3) = select_questions rnd bank diff;
          name1 = (if name0 = [] then ''Player'' else name0);
          r = \<lparr>playerName = name1, res_score = 0, correct = 0, wrong = 0, timestamp = t_created,
               questionIndices = replicate MAX_QUIZ_QUESTIONS 0,
               answers = replicate MAX_QUIZ_QUESTIONS 0, qCount = 0,
               remainingSecondsForCurrent = 0\<rparr>;
          s = \<lparr>allQ = bank, quizQuestions = qs, quizCount = quizCount0,
               lif_5050 = True, lif_skip = True, lif_replace = True, lif_extra = True,
               score = 0, correctCount = 0, wrongCount = 0, streak = 0, result = r, qi = 0,
               visibleOptions = [0, 1, 2, 3], visibleCount = 4,
               remainingSeconds = DEFAULT_TIME_PER_QUESTION, endTime = 0, rpos = p3,
               saveFile = save, out = []\<rparr>
      in if 0 < quizCount0 then begin_question t_first s else s)"

section \<open>Text files: lines, the high-score log, the snapshot reader\<close>

text \<open>
  \<open>getline\<close> on the unread rest of a stream: it fails at the end of the stream, and
  otherwise returns the characters before the next line end and the rest after it (a
  last line needs no line end).
\<close>

definition getline :: "string \<Rightarrow> (string \<times> string) option" where
  "getline s =
     (if s = [] then None
      else Some (takeWhile (\<lambda>c. c \<noteq> CHR 0x0A) s, drop 1 (dropWhile (\<lambda>c. c \<noteq> CHR 0x0A) s)))"

text \<open>\<open>string::find(c, pos)\<close>, with \<open>None\<close> for \<open>npos\<close>; \<open>substr\<close> is \<open>take\<close> after \<open>drop\<close>.\<close>

definition str_find :: "char \<Rightarrow> nat \<Rightarrow> string \<Rightarrow> nat option" where
  "str_find c pos s =
     (if c \<in> set (drop pos s) then Some (pos + length (takeWhile (\<lambda>x. x \<noteq> c) (drop pos s)))
      else None)"

definition substr :: "string \<Rightarrow> nat \<Rightarrow> nat \<Rightarrow> string" where
  "substr s pos n = take n (drop pos s)"

text \<open>\<open>writeHighScore\<close> appends one line \<open>name|score|datetime\<close>.\<close>

definition entry_line :: "ScoreEntry \<Rightarrow> string" where
  "entry_line e = name e @ ''|'' @ show_int (entry_score e) @ ''|'' @ datetime e @ ''\<newline>''"

definition writeHighScore :: "disk_file \<Rightarrow> ScoreEntry \<Rightarrow> disk_file" where
  "writeHighScore f e =
     (case f of
        Unavailable \<Rightarrow> Unavailable
      | Absent \<Rightarrow> Content (entry_line e)
      | Content c \<Rightarrow> Content (c @ entry_line e))"

text \<open>
  \<open>readHighScores\<close>: the loop over the lines of the file, with the entries read so far.
  Empty lines and lines without two bars are skipped, a score that \<open>stoi\<close> rejects is 0,
  and an entry is stored only while fewer than \<open>MAX_QUIZ_QUESTIONS\<close> are.
\<close>

function read_scores :: "string \<Rightarrow> ScoreEntry list \<Rightarrow> ScoreEntry list" where
  "read_scores s outScores =
     (case getline s of
        None \<Rightarrow> outScores
      | Some (line, rest) \<Rightarrow>
          if line = [] then read_scores rest outScores
          else (case str_find (CHR ''|'') 0 line of
                  None \<Rightarrow> read_scores rest outScores
                | Some p1 \<Rightarrow>
                    (case str_find (CHR ''|'') (p1 + 1) line of
                       None \<Rightarrow> read_scores rest outScores
                     | Some p2 \<Rightarrow>
                         (let e = \<lparr>name = substr line 0 p1,
                                   entry_score = (case stoi (substr line (p1 + 1) (p2 - p1 - 1)) of
                                                    Some v \<Rightarrow> v | None \<Rightarrow> 0),
                                   datetime = drop (p2 + 1) line\<rparr>
                          in read_scores rest
                               (if length outScores < MAX_QUIZ_QUESTIONS then outScores @ [e]
                                else outScores)))))"
  by pat_completeness auto
termination
proof -
  have shorter: "length rest < length s" if "getline s = Some (line, rest)" for s line rest
  proof -
    from that have "s \<noteq> []" and "rest = drop 1 (dropWhile (\<lambda>c. c \<noteq> CHR 0x0A) s)"
      by (auto simp: getline_def split: if_splits)
    moreover have "length (dropWhile (\<lambda>c. c \<noteq> CHR 0x0A) s) \<le> length s"
      by (rule length_dropWhile_le)
    ultimately show ?thesis by (cases s) auto
  qed
  show ?thesis
    by (relation "measure (\<lambda>(s, outScores). length s)") (auto dest: shorter)
qed

declare read_scores.simps [simp del]

definition readHighScores :: "disk_file \<Rightarrow> ScoreEntry list" where
  "readHighScores f = (case f of Content c \<Rightarrow> read_scores c [] | _ \<Rightarrow> [])"

text \<open>
  \<open>loadProgress\<close>. The lists of answers and of question indices are read by the loop
  \<open>while (sscanf(p, "%d", &val) == 1)\<close>, which moves on to the character after the next
  space; the first \<open>MAX_QUIZ_QUESTIONS\<close> values are stored, and the array entries that the
  source leaves unset are 0 here. \<open>sscanf\<close> reads as \<open>scan_int\<close> does (a value outside
  the range of \<open>int\<close>, where C leaves the result open, is taken as it is written).
\<close>

function parse_ints :: "string \<Rightarrow> int list" where
  "parse_ints p =
     (case scan_int p of
        None \<Rightarrow> []
      | Some (v, r) \<Rightarrow>
          (let sp = dropWhile (\<lambda>c. c \<noteq> CHR '' '') p
           in if sp = [] then [v] else v # parse_ints (tl sp)))"
  by pat_completeness auto
termination
proof (relation "measure length")
  show "wf (measure length)" by simp
next
  fix p :: string and x2 x y sp
  assume "sp = dropWhile (\<lambda>c. c \<noteq> CHR '' '') p" "sp \<noteq> []"
  then have "length (tl sp) < length sp" "length sp \<le> length p"
    by (simp_all add: length_dropWhile_le)
  then show "(tl sp, p) \<in> measure length" by simp
qed

declare parse_ints.simps [simp del]

definition sscanf4 :: "string \<Rightarrow> (int \<times> int \<times> int \<times> int) option" where
  "sscanf4 line =
     (case scan_int line of None \<Rightarrow> None | Some (a, r1) \<Rightarrow>
     (case scan_int r1 of None \<Rightarrow> None | Some (b, r2) \<Rightarrow>
     (case scan_int r2 of None \<Rightarrow> None | Some (c, r3) \<Rightarrow>
     (case scan_int r3 of None \<Rightarrow> None | Some (d, r4) \<Rightarrow> Some (a, b, c, d)))))"

definition store :: "int list \<Rightarrow> int list" where
  "store vals = take MAX_QUIZ_QUESTIONS vals @ replicate (MAX_QUIZ_QUESTIONS - length vals) 0"

definition loadProgress :: "disk_file \<Rightarrow> QuizResult option" where
  "loadProgress f =
     (case f of
        Content c \<Rightarrow>
          (case getline c of None \<Rightarrow> None | Some (nm, c1) \<Rightarrow>
          (case getline c1 of None \<Rightarrow> None | Some (line2, c2) \<Rightarrow>
          (case sscanf4 line2 of None \<Rightarrow> None | Some (sc, cr, wr, ts) \<Rightarrow>
          (case getline c2 of None \<Rightarrow> None | Some (line3, c3) \<Rightarrow>
          (case getline c3 of None \<Rightarrow> None | Some (line4, c4) \<Rightarrow>
             (let ans = parse_ints line3;
                  idx = parse_ints line4;
                  n = min (min MAX_QUIZ_QUESTIONS (length ans)) (min MAX_QUIZ_QUESTIONS (length idx));
                  rem = (case getline c4 of
                           None \<Rightarrow> DEFAULT_TIME_PER_QUESTION
                         | Some (line5, c5) \<Rightarrow>
                             (case stoi line5 of
                                None \<Rightarrow> DEFAULT_TIME_PER_QUESTION
                              | Some v \<Rightarrow> if v < 0 then 0 else v))
              in Some \<lparr>playerName = nm, res_score = sc, correct = cr, wrong = wr, timestamp = ts,
                       questionIndices = store idx, answers = store ans, qCount = n,
                       remainingSecondsForCurrent = rem\<rparr>))))))
      | _ \<Rightarrow> None)"

section \<open>startQuiz: the end of a session\<close>

text \<open>
  After the last question the score is floored at 0 and shown, the high-score entry is
  appended with that score and the date string \<open>now\<close> of \<open>nowString\<close>, and the save file
  is removed (the session log is left out). The result is the final state and the
  high-score file.
\<close>

definition remove_file :: "disk_file \<Rightarrow> disk_file" where
  "remove_file f = (case f of Content c \<Rightarrow> Absent | _ \<Rightarrow> f)"

definition finish_quiz :: "string \<Rightarrow> disk_file \<Rightarrow> quiz \<Rightarrow> quiz \<times> disk_file" where
  "finish_quiz now highScoreFile s =
     (let score' = (if score s < 0 then 0 else score s);
          e = \<lparr>name = playerName (result s), entry_score = score', datetime = now\<rparr>
      in (s\<lparr>score := score', saveFile := remove_file (saveFile s)\<rparr>,
          writeHighScore highScoreFile e))"

section \<open>main: one round of the menu loop\<close>

text \<open>
  Standard input is the list of the lines still to be read. \<open>getIntInRange\<close> reads lines
  until one holds a number within the bounds; here it gives \<open>None\<close> when the input ends
  before that. \<open>cin.ignore\<close> drops one line.
\<close>

fun getIntInRange :: "int \<Rightarrow> int \<Rightarrow> string list \<Rightarrow> (int \<times> string list) option" where
  "getIntInRange minv maxv [] = None"
| "getIntInRange minv maxv (s # inp) =
     (case stoi s of
        Some v \<Rightarrow> if minv \<le> v \<and> v \<le> maxv then Some (v, inp) else getIntInRange minv maxv inp
      | None \<Rightarrow> getIntInRange minv maxv inp)"

definition category_file :: "int \<Rightarrow> string" where
  "category_file cat =
     (if cat = 1 then ''science.txt'' else if cat = 2 then ''sports.txt''
      else if cat = 3 then ''history.txt'' else if cat = 4 then ''computer.txt''
      else if cat = 5 then ''iq.txt'' else ''science.txt'')"

text \<open>
  What one round of the menu loop does: the lines it prints after the menu (prompts
  left out), the category file it calls \<open>startQuiz\<close> with, if it does, whether it shows
  the high scores, whether it leaves the loop, and the input left when it is over or
  hands over to \<open>startQuiz\<close> or \<open>displayTopHighScores\<close>. No branch writes a file.
\<close>

record menu_round =
  printed :: "string list"
  started :: "string option"
  shown_scores :: bool
  quit :: bool
  rest_input :: "string list"

definition main_round :: "disk_file \<Rightarrow> string list \<Rightarrow> menu_round option" where
  "main_round save inp =
     (case getIntInRange 1 4 inp of
        None \<Rightarrow> None
      | Some (choice, inp1) \<Rightarrow>
          if choice = 1 then
            (case getIntInRange 1 5 inp1 of
               None \<Rightarrow> None
             | Some (cat, inp2) \<Rightarrow>
                 Some \<lparr>printed = [], started = Some (category_file cat), shown_scores = False,
                       quit = False, rest_input = inp2\<rparr>)
          else if choice = 2 then
            Some \<lparr>printed = [], started = None, shown_scores = True, quit = False, rest_input = inp1\<rparr>
          else if choice = 3 then
            (case loadProgress save of
               None \<Rightarrow>
                 Some \<lparr>printed = [''No saved progress found.''], started = None, shown_scores = False,
                       quit = False, rest_input = drop 1 inp1\<rparr>
             | Some r \<Rightarrow>
                 (case getIntInRange 1 5 inp1 of
                    None \<Rightarrow> None
                  | Some (cat, inp2) \<Rightarrow>
                      Some \<lparr>printed =
                              [''Found saved progress for player: '' @ playerName r @
                                 '' | Score so far: '' @ show_int (res_score r),
                               ''This simplified resume will restore your name, score, and remaining seconds for the next question.'',
                               ''To continue, select category to play (pick the same category you used earlier if possible).'',
                               ''Resuming: player name and score restored. Remaining seconds saved: '' @
                                 show_int (remainingSecondsForCurrent r) @ ''s (used for first question).'',
                               ''Note: Fully accurate resume (exact previous question/order) requires more saved state. This simplified resume is informational only.''],
                            started = None, shown_scores = False, quit = False,
                            rest_input = drop 2 inp2\<rparr>))
          else if choice = 4 then
            (case inp1 of
               [] \<Rightarrow> Some \<lparr>printed = [], started = None, shown_scores = False, quit = False,
                           rest_input = []\<rparr>
             | s # inp2 \<Rightarrow>
                 if s \<noteq> [] \<and> (hd s = CHR ''Y'' \<or> hd s = CHR ''y'')
                 then Some \<lparr>printed = [''Goodbye!''], started = None, shown_scores = False,
                            quit = True, rest_input = inp2\<rparr>
                 else Some \<lparr>printed = [], started = None, shown_scores = False, quit = False,
                            rest_input = inp2\<rparr>)
          else Some \<lparr>printed = [], started = None, shown_scores = False, quit = False,
                     rest_input = inp1\<rparr>)"

section \<open>Notions used to state the properties\<close>

text \<open>The outcome with which a pass completes the question, if it does.\<close>

fun outcome_of :: "flow \<Rightarrow> outcome option" where
  "outcome_of (Continue s) = None"
| "outcome_of (Redraw s) = None"
| "outcome_of (Completed oc s) = Some oc"

fun state_of :: "flow \<Rightarrow> quiz" where
  "state_of (Continue s) = s"
| "state_of (Redraw s) = s"
| "state_of (Completed oc s) = s"

text \<open>The running score with the three tallies.\<close>

definition board :: "quiz \<Rightarrow> int \<times> int \<times> int \<times> int" where
  "board s = (score s, correctCount s, wrongCount s, streak s)"

text \<open>
  A pass answers question \<open>q\<close> correctly when its key is one of \<open>'1'..'4'\<close> and passes
  the test \<open>userAns - 1 == q.correctIndex\<close> of the evaluation.
\<close>

definition answers_correctly :: "tick \<Rightarrow> Question \<Rightarrow> bool" where
  "answers_correctly t q =
     (CHR ''1'' \<le> key t \<and> key t \<le> CHR ''4'' \<and>
      of_char (key t) - of_char (CHR ''0'') - 1 = correctIndex q)"

text \<open>The bonuses collected by \<open>n\<close> correct answers in a row after a streak of \<open>st\<close>.\<close>

definition streak_bonus :: "int \<Rightarrow> nat \<Rightarrow> int" where
  "streak_bonus st n =
     (if st < 3 \<and> 3 \<le> st + int n then 5 else 0) + (if st < 5 \<and> 5 \<le> st + int n then 15 else 0)"

text \<open>
  The shape that every state of a session has: ten questions at most, as many recorded
  answers as questions begun before the current one, arrays of their declared sizes,
  and every question of the quiz with a correct index among 0..3.
\<close>

definition session_ok :: "quiz \<Rightarrow> bool" where
  "session_ok s =
     (length (quizQuestions s) = quizCount s \<and> quizCount s \<le> 10 \<and> qi s \<le> quizCount s \<and>
      qCount (result s) = qi s \<and> length (answers (result s)) = MAX_QUIZ_QUESTIONS \<and>
      length (questionIndices (result s)) = MAX_QUIZ_QUESTIONS \<and>
      length (visibleOptions s) = MAX_OPTIONS \<and>
      list_all (\<lambda>q. 0 \<le> correctIndex q \<and> correctIndex q < 4) (quizQuestions s))"

subsection \<open>An example session\<close>

text \<open>
  A bank of twelve easy questions, a player who sees all clock readings equal to \<open>now\<close>,
  and the key of the correct option of a question.
\<close>

definition mkq :: "string \<Rightarrow> int \<Rightarrow> int \<Rightarrow> Question" where
  "mkq txt c d = \<lparr>qtext = txt, options = [''a'', ''b'', ''c'', ''d''],
                  correctIndex = c, originalCorrectIndex = c, difficulty = d\<rparr>"

definition easy_bank :: "Question list" where
  "easy_bank = [mkq ''Q0'' 0 1, mkq ''Q1'' 1 1, mkq ''Q2'' 2 1, mkq ''Q3'' 3 1, mkq ''Q4'' 0 1,
                mkq ''Q5'' 1 1, mkq ''Q6'' 2 1, mkq ''Q7'' 3 1, mkq ''Q8'' 0 1, mkq ''Q9'' 1 1,
                mkq ''Q10'' 2 1, mkq ''Q11'' 3 1]"

definition easy_session :: quiz where
  "easy_session = startQuiz_init (\<lambda>n. n) easy_bank ''Ann'' 1 1000 1000 Absent"

definition press :: "char \<Rightarrow> int \<Rightarrow> int \<Rightarrow> tick" where
  "press k choice now = \<lparr>key = k, t_key = now, li = choice, t_menu = now, t_check = now,
                          t_stamp = now, t_rem = now, t_done = now, t_start = now\<rparr>"

definition answer_key :: "Question \<Rightarrow> char" where
  "answer_key q = (if correctIndex q = 0 then CHR ''1'' else if correctIndex q = 1 then CHR ''2''
                   else if correctIndex q = 2 then CHR ''3'' else CHR ''4'')"

text \<open>A bank with a single question, and a session on it.\<close>

definition single_bank :: "Question list" where
  "single_bank = [mkq ''Q0'' 2 1]"

definition single_session :: quiz where
  "single_session = startQuiz_init (\<lambda>n. n) single_bank ''Ann'' 1 1000 1000 Absent"

text \<open>
  A high-score entry as the program makes them: the name was read by \<open>getline\<close> and the
  date comes from \<open>ctime_s\<close> without its line end, so neither holds a line end; the score
  is an \<open>int\<close>. Only a name without a bar is read back as it was written.
\<close>

definition entry_ok :: "ScoreEntry \<Rightarrow> bool" where
  "entry_ok e =
     (CHR ''|'' \<notin> set (name e) \<and> CHR 0x0A \<notin> set (name e) \<and> CHR 0x0A \<notin> set (datetime e) \<and>
      - (2 ^ 31) \<le> entry_score e \<and> entry_score e \<le> 2 ^ 31 - 1)"

definition ann_entry :: ScoreEntry where
  "ann_entry = \<lparr>name = ''Ann'', entry_score = 120, datetime = ''Fri Oct 30 12:00:00 2026''\<rparr>"

definition bar_entry :: ScoreEntry where
  "bar_entry = \<lparr>name = ''a|b'', entry_score = 5, datetime = ''d''\<rparr>"

text \<open>
  The example session after four answered questions and one more pass of the polling
  loop at 1005, when the fifth question, begun at 1001, has six seconds left.
\<close>

definition crash_state :: quiz where
  "crash_state = run (\<lambda>n. n) easy_session
     [press (CHR ''1'') 0 1001, press (CHR ''1'') 0 1001, press (CHR ''1'') 0 1001,
      press (CHR ''1'') 0 1001, press (CHR 0x00) 0 1005]"

text \<open>A snapshot as \<open>saveProgress\<close> writes it: three questions done, six seconds left.\<close>

definition demo_save :: disk_file where
  "demo_save = Content ''Ann\<newline>25 2 1 1001\<newline>1 2 0 \<newline>0 1 2 \<newline>6\<newline>''"

section \<open>Properties of the shuffles\<close>

lemma shuffle_from_mset:
  "k < length arr \<Longrightarrow> mset (fst (shuffle_from rnd p arr k)) = mset arr"
proof (induction k arbitrary: p arr)
  case 0
  then show ?case by simp
next
  case (Suc k)
  let ?j = "rnd p mod (Suc k + 1)"
  have "?j < Suc k + 1" by simp
  then have j: "?j < length arr" using Suc.prems by linarith
  have "mset (arr[Suc k := arr ! ?j, ?j := arr ! Suc k]) = mset arr"
    using Suc.prems j by (simp add: mset_swap)
  moreover have "k < length (arr[Suc k := arr ! ?j, ?j := arr ! Suc k])"
    using Suc.prems by simp
  ultimately show ?case using Suc.IH by (simp add: Let_def)
qed

lemma shuffleIntArray_mset:
  assumes "n \<le> length arr"
  shows "mset (fst (shuffleIntArray rnd p arr n)) = mset arr"
proof (cases "n = 0")
  case True
  then show ?thesis by (simp add: shuffleIntArray_def)
next
  case False
  with assms have "n - 1 < length arr" by simp
  then show ?thesis by (simp only: shuffleIntArray_def shuffle_from_mset)
qed

lemma shuffleIntArray_set:
  "n \<le> length arr \<Longrightarrow> set (fst (shuffleIntArray rnd p arr n)) = set arr"
  by (metis shuffleIntArray_mset set_mset_mset)

lemma shuffleIntArray_length:
  "n \<le> length arr \<Longrightarrow> length (fst (shuffleIntArray rnd p arr n)) = length arr"
  by (metis shuffleIntArray_mset size_mset)

lemma newCorrect_fold:
  assumes "length idx = 4" "distinct idx" "i < 4" "idx ! i = c"
  shows "fold (\<lambda>i nc. if idx ! i = c then int i else nc) [0..<4] 0 = int i"
proof -
  have up: "[0..<4] = [0, 1, 2, 3]" by (simp add: upt_rec)
  from assms(1) obtain a b c' d where idx: "idx = [a, b, c', d]"
    by (auto simp: length_Suc_conv numeral_eq_Suc)
  have "i = 0 \<or> i = 1 \<or> i = 2 \<or> i = 3" using assms(3) by auto
  then show ?thesis using assms(2,4) unfolding up idx by auto
qed

lemma shuffleOptions_correct:
  assumes "0 \<le> originalCorrectIndex q" "originalCorrectIndex q < 4"
  shows "0 \<le> correctIndex (fst (shuffleOptions rnd p q)) \<and>
         correctIndex (fst (shuffleOptions rnd p q)) < 4 \<and>
         options (fst (shuffleOptions rnd p q)) ! nat (correctIndex (fst (shuffleOptions rnd p q)))
           = options q ! nat (originalCorrectIndex q)"
proof -
  obtain idx p' where sh: "shuffleIntArray rnd p [0, 1, 2, 3] 4 = (idx, p')" by force
  have m: "mset idx = mset [0, 1, 2, 3::int]"
    using shuffleIntArray_mset [of 4 "[0, 1, 2, 3]" rnd p] sh by simp
  have len: "length idx = 4" using arg_cong [OF m, of size] by simp
  have dist: "distinct idx" using mset_eq_imp_distinct_iff [OF m] by simp
  have sidx: "set idx = {0, 1, 2, 3}" using mset_eq_setD [OF m] by simp
  have "originalCorrectIndex q = 0 \<or> originalCorrectIndex q = 1 \<or> originalCorrectIndex q = 2 \<or>
        originalCorrectIndex q = 3" using assms by arith
  then have "originalCorrectIndex q \<in> set idx" unfolding sidx by blast
  then obtain i where i: "i < 4" "idx ! i = originalCorrectIndex q"
    using len by (metis in_set_conv_nth)
  have nc: "fold (\<lambda>i nc. if idx ! i = originalCorrectIndex q then int i else nc) [0..<4] 0 = int i"
    by (rule newCorrect_fold [OF len dist i])
  have q': "fst (shuffleOptions rnd p q) =
     q\<lparr>options := map (\<lambda>i. options q ! nat (idx ! i)) [0..<4], correctIndex := int i\<rparr>"
    using sh nc by (simp add: shuffleOptions_def MAX_OPTIONS_def)
  show ?thesis using i by (simp add: q')
qed

lemma shuffleOptions_keeps:
  "difficulty (fst (shuffleOptions rnd p q)) = difficulty q \<and>
   qtext (fst (shuffleOptions rnd p q)) = qtext q"
  by (simp add: shuffleOptions_def Let_def split: prod.splits)

lemma shuffle_each_all:
  assumes "list_all P qs" and "\<And>q p. P q \<Longrightarrow> Q (fst (shuffleOptions rnd p q))"
  shows "list_all Q (fst (shuffle_each rnd p qs)) \<and> length (fst (shuffle_each rnd p qs)) = length qs"
  using assms(1)
proof (induction qs arbitrary: p)
  case Nil
  then show ?case by simp
next
  case (Cons q qs)
  obtain q' p1 where a: "shuffleOptions rnd p q = (q', p1)" by force
  obtain qs' p2 where b: "shuffle_each rnd p1 qs = (qs', p2)" by force
  have "Q q'" using assms(2) [of q p] Cons.prems a by simp
  moreover have "list_all Q qs' \<and> length qs' = length qs"
    using Cons.IH [of p1] Cons.prems b by simp
  ultimately show ?case using a b by simp
qed

lemma select_questions_all:
  assumes "list_all P bank" and "\<And>q p. P q \<Longrightarrow> Q (fst (shuffleOptions rnd p q))"
    and "select_questions rnd bank diff = ((qs, n), p)"
  shows "list_all Q qs" "length qs = n" "n \<le> 10"
    "list_all (\<lambda>q. difficulty q = diff) bank \<Longrightarrow> n = min 10 (length bank)"
proof -
  let ?all = "map int [0..<length bank]"
  let ?pool0 = "filter (\<lambda>i. difficulty (bank ! nat i) = diff) ?all"
  let ?pool1 = "if length ?pool0 < 10 then ?all else ?pool0"
  obtain qI p1 where s1: "shuffleIntArray rnd 0 ?all (length bank) = (qI, p1)" by force
  obtain pool p2 where s2: "shuffleIntArray rnd p1 ?pool1 (length ?pool1) = (pool, p2)" by force
  let ?n = "if length pool > 10 then 10 else length pool"
  let ?pre = "map (\<lambda>i. bank ! nat (pool ! i)) [0..<?n]"
  obtain qs' p3 where s3: "shuffle_each rnd p2 ?pre = (qs', p3)" by force
  have eq: "select_questions rnd bank diff = ((qs', ?n), p3)"
    by (simp only: select_questions_def Let_def s1 prod.case s2 s3)
  then have qs: "qs = fst (shuffle_each rnd p2 ?pre)" and n: "n = ?n"
    using assms(3) s3 by simp_all
  have sp: "set pool = set ?pool1" and lp: "length pool = length ?pool1"
    using shuffleIntArray_set [of "length ?pool1" ?pool1 rnd p1]
      shuffleIntArray_length [of "length ?pool1" ?pool1 rnd p1] s2 by simp_all
  have "set ?pool1 \<subseteq> set ?all" by auto
  then have inb: "\<And>i. i < length pool \<Longrightarrow> nat (pool ! i) < length bank"
    using sp by (metis (no_types, lifting) atLeastLessThan_iff imageE nat_int nth_mem set_map set_upt subsetD)
  have pre: "list_all P ?pre"
    using assms(1) inb by (auto simp: list_all_iff)
  have "list_all Q (fst (shuffle_each rnd p2 ?pre)) \<and>
        length (fst (shuffle_each rnd p2 ?pre)) = length ?pre"
    by (rule shuffle_each_all [where P = P]) (use pre assms(2) in auto)
  then show "list_all Q qs" "length qs = n" unfolding qs n by simp_all
  show "n \<le> 10" unfolding n by simp
  assume "list_all (\<lambda>q. difficulty q = diff) bank"
  then have "?pool0 = ?all" by (auto simp: list_all_iff filter_id_conv)
  then have "?pool1 = ?all" by presburger
  then have "length pool = length bank" using lp by simp
  then show "n = min 10 (length bank)" unfolding n by simp
qed

lemma select_questions_count:
  assumes "select_questions rnd bank diff = ((qs, n), p)"
  shows "length qs = n" "n \<le> 10"
    "list_all (\<lambda>q. difficulty q = diff) bank \<Longrightarrow> n = min 10 (length bank)"
proof -
  have t: "list_all (\<lambda>q. True) bank" by (simp add: list_all_iff)
  show "length qs = n"
    by (rule select_questions_all(2) [where P = "\<lambda>q. True" and Q = "\<lambda>q. True", OF t _ assms]) simp
  show "n \<le> 10"
    by (rule select_questions_all(3) [where P = "\<lambda>q. True" and Q = "\<lambda>q. True", OF t _ assms]) simp
  show "list_all (\<lambda>q. difficulty q = diff) bank \<Longrightarrow> n = min 10 (length bank)"
    by (rule select_questions_all(4) [where P = "\<lambda>q. True" and Q = "\<lambda>q. True", OF t _ assms]) simp_all
qed

lemma apply5050_two:
  assumes "0 \<le> correctIndex q" "correctIndex q < 4" "2 \<le> length vis"
    and ap: "apply5050 rnd p q vis = ((v, c), p')"
  shows "c = 2 \<and> length v = length vis \<and>
         (\<exists>w. w \<noteq> correctIndex q \<and> 0 \<le> w \<and> w < 4 \<and> {i. shown v c i} = {correctIndex q, w}) \<and>
         v ! 0 < v ! 1"
proof -
  let ?ci = "correctIndex q"
  let ?w0 = "filter (\<lambda>i. i \<noteq> ?ci) [0, 1, 2, 3]"
  obtain ws p1 where sh: "shuffleIntArray rnd p ?w0 (length ?w0) = (ws, p1)" by force
  have ci: "?ci = 0 \<or> ?ci = 1 \<or> ?ci = 2 \<or> ?ci = 3" using assms(1,2) by arith
  then have l3: "length ?w0 = 3" by auto
  have sws: "set ws = set ?w0" using shuffleIntArray_set [of "length ?w0" ?w0 rnd p] sh by simp
  have lws: "length ws = 3" using shuffleIntArray_length [of "length ?w0" ?w0 rnd p] sh l3 by simp
  then have "ws ! 0 \<in> set ws" by (simp del: set_filter)
  moreover have "set ?w0 = {0, 1, 2, 3} - {?ci}" by auto
  ultimately have "ws ! 0 \<in> {0, 1, 2, 3} - {?ci}" using sws by simp
  then have w: "ws ! 0 \<noteq> ?ci" "0 \<le> ws ! 0" "ws ! 0 < 4" by auto
  let ?v = "vis[0 := ?ci, 1 := ws ! 0]"
  have l0: "0 < length vis" "1 < length vis" using assms(3) by linarith+
  have v01: "?v ! 0 = ?ci" "?v ! 1 = ws ! 0" using l0 by (simp_all add: nth_list_update)
  have res: "v = (if ?v ! 0 > ?v ! 1 then ?v[0 := ?v ! 1, 1 := ?v ! 0] else ?v)" "c = 2"
  proof -
    have "apply5050 rnd p q vis =
        (((if ?v ! 0 > ?v ! 1 then ?v[0 := ?v ! 1, 1 := ?v ! 0] else ?v), 2), p1)"
      by (simp only: apply5050_def Let_def sh prod.case)
    with ap have "((v, c), p') =
        (((if ?v ! 0 > ?v ! 1 then ?v[0 := ?v ! 1, 1 := ?v ! 0] else ?v), 2), p1)"
      by (simp only:)
    then show "v = (if ?v ! 0 > ?v ! 1 then ?v[0 := ?v ! 1, 1 := ?v ! 0] else ?v)" "c = 2"
      by (simp_all only: prod.inject)
  qed
  have lv: "length v = length vis" using res by simp
  have t2: "take 2 v = [v ! 0, v ! 1]" using lv assms(3)
    by (metis (no_types, opaque_lifting) Cons_nth_drop_Suc One_nat_def Suc_1 Suc_le_lessD drop0
        take0 take_Suc_Cons lessI less_le_trans zero_less_Suc)
  have vals: "(v ! 0 = ?ci \<and> v ! 1 = ws ! 0 \<or> v ! 0 = ws ! 0 \<and> v ! 1 = ?ci) \<and> v ! 0 < v ! 1"
    using res(1) v01 w(1) l0 by (auto simp: nth_list_update)
  have "{i. shown v c i} = {?ci, ws ! 0}"
    using vals by (auto simp: shown_def res(2) t2)
  then show ?thesis using w vals res(2) lv by blast
qed

section \<open>Properties of one pass of the polling loop\<close>

lemmas poll_defs = poll_def check_timeout_def lifeline_menu_def set_answer_def set_saved_rem_def
  say_def curq_def Let_def

lemma answer_key_range:
  assumes "CHR ''1'' \<le> k" "k \<le> CHR ''4''"
  shows "1 \<le> (of_char k :: int) - of_char (CHR ''0'') \<and> (of_char k :: int) - of_char (CHR ''0'') \<le> 4"
proof -
  have "(49::nat) \<le> of_char k" "(of_char k :: nat) \<le> 52"
    using assms by (simp_all add: less_eq_char_def)
  moreover have "(of_char k :: int) = int (of_char k)"
    by (simp add: of_nat_of_char)
  ultimately show ?thesis by simp
qed

lemma poll_Continue_board: "poll rnd s t = Continue s1 \<Longrightarrow> board s1 = board s"
  by (auto simp: poll_defs board_def split: if_splits prod.splits option.splits)

lemma poll_Redraw_board: "poll rnd s t = Redraw s1 \<Longrightarrow> board s1 = board s"
  by (auto simp: poll_defs board_def split: if_splits prod.splits option.splits)

lemma poll_Skipped:
  "poll rnd s t = Completed Skipped s1 \<Longrightarrow>
     board s1 = board s \<and> qCount (result s1) = qCount (result s) \<and> curq s1 = curq s \<and>
     answers (result s1) = (answers (result s))[qCount (result s) := 0]"
  by (auto simp: poll_defs board_def split: if_splits prod.splits option.splits)

lemma poll_TimedOut:
  "poll rnd s t = Completed TimedOut s1 \<Longrightarrow>
     score s1 = score s - penalty (curq s) \<and> correctCount s1 = correctCount s \<and>
     wrongCount s1 = wrongCount s + 1 \<and> streak s1 = 0 \<and>
     qCount (result s1) = qCount (result s) \<and> curq s1 = curq s \<and>
     answers (result s1) = (answers (result s))[qCount (result s) := 0]"
  by (auto simp: poll_defs board_def split: if_splits prod.splits option.splits)

lemma poll_Answered:
  "poll rnd s t = Completed (Answered k) s1 \<Longrightarrow>
     board s1 = board s \<and> qCount (result s1) = qCount (result s) \<and> curq s1 = curq s \<and>
     answers (result s1) = (answers (result s))[qCount (result s) := k] \<and> 1 \<le> k \<and> k \<le> 4 \<and>
     k = of_char (key t) - of_char (CHR ''0'')"
  using answer_key_range [of "key t"]
  by (auto simp: poll_defs board_def split: if_splits prod.splits option.splits)

lemma poll_answer_key:
  "CHR ''1'' \<le> key t \<Longrightarrow> key t \<le> CHR ''4'' \<Longrightarrow>
   poll rnd s t = Completed (Answered (of_char (key t) - of_char (CHR ''0'')))
     (set_saved_rem (max 0 (endTime s - t_key t))
        ((set_answer (of_char (key t) - of_char (CHR ''0'')) s)
           \<lparr>remainingSeconds := max 0 (endTime s - t_key t)\<rparr>))"
  by (auto simp: poll_def Let_def)

lemma autosave_keeps:
  "board (autosave c t s) = board s \<and> curq (autosave c t s) = curq s \<and>
   answers (result (autosave c t s)) = answers (result s) \<and>
   qCount (result (autosave c t s)) = qCount (result s)"
  by (simp add: autosave_def board_def curq_def set_saved_rem_def Let_def)

lemma complete_question_board:
  "board (complete_question t s) = board (evaluate (autosave True t s))"
  by (simp add: complete_question_def finish_question_def begin_question_def board_def Let_def)

lemma complete_question_frame:
  "quizQuestions (complete_question t s) = quizQuestions s \<and>
   quizCount (complete_question t s) = quizCount s \<and>
   qi (complete_question t s) = qi s + 1 \<and>
   qCount (result (complete_question t s)) = qCount (result s) + 1 \<and>
   length (answers (result (complete_question t s))) = length (answers (result s))"
  by (simp add: complete_question_def finish_question_def begin_question_def autosave_def
      evaluate_def set_saved_rem_def say_def Let_def)

lemma evaluate_unanswered:
  "answers (result s) ! qCount (result s) = 0 \<Longrightarrow> board (evaluate s) = board s"
  by (simp add: evaluate_def board_def say_def Let_def)

lemma evaluate_wrong:
  "answers (result s) ! qCount (result s) \<noteq> 0 \<Longrightarrow>
   answers (result s) ! qCount (result s) - 1 \<noteq> correctIndex (curq s) \<Longrightarrow>
   board (evaluate s) = (score s - penalty (curq s), correctCount s, wrongCount s + 1, 0)"
  by (simp add: evaluate_def board_def say_def Let_def)

lemma evaluate_correct:
  "answers (result s) ! qCount (result s) \<noteq> 0 \<Longrightarrow>
   answers (result s) ! qCount (result s) - 1 = correctIndex (curq s) \<Longrightarrow>
   board (evaluate s) =
     (score s + (if difficulty (curq s) = 1 then 10 else if difficulty (curq s) = 2 then 15 else 20)
        + (if streak s + 1 = 3 then 5 else if streak s + 1 = 5 then 15 else 0),
      correctCount s + 1, wrongCount s, streak s + 1)"
  by (simp add: evaluate_def board_def say_def Let_def curq_def)

lemma outcome_of_Some: "outcome_of f = Some oc \<Longrightarrow> f = Completed oc (state_of f)"
  by (cases f) simp_all

lemma outcome_of_None: "outcome_of f = None \<Longrightarrow> f = Continue (state_of f) \<or> f = Redraw (state_of f)"
  by (cases f) simp_all

section \<open>Properties of a pass with what follows it\<close>

lemma tick_step_Completed:
  "qi s < quizCount s \<Longrightarrow> poll rnd s t = Completed oc s1 \<Longrightarrow>
   tick_step rnd s t = complete_question t s1"
  by (simp add: tick_step_def)

lemma tick_step_Continue:
  "qi s < quizCount s \<Longrightarrow> poll rnd s t = Continue s1 \<Longrightarrow> tick_step rnd s t = s1"
  by (simp add: tick_step_def)

lemma tick_step_Redraw:
  "qi s < quizCount s \<Longrightarrow> poll rnd s t = Redraw s1 \<Longrightarrow> tick_step rnd s t = autosave False t s1"
  by (simp add: tick_step_def)

lemma wrong_tick:
  assumes "qi s < quizCount s" "qCount (result s) < length (answers (result s))"
    and "outcome_of (poll rnd s t) = Some TimedOut \<or>
         (outcome_of (poll rnd s t) = Some (Answered k) \<and> k - 1 \<noteq> correctIndex (curq s))"
  shows "board (tick_step rnd s t) =
           (score s - penalty (curq s), correctCount s, wrongCount s + 1, 0)"
proof -
  let ?s1 = "state_of (poll rnd s t)"
  let ?s2 = "autosave True t ?s1"
  from assms(3) show ?thesis
  proof
    assume "outcome_of (poll rnd s t) = Some TimedOut"
    then have p: "poll rnd s t = Completed TimedOut ?s1" by (rule outcome_of_Some)
    note T = poll_TimedOut [OF p]
    have ts: "tick_step rnd s t = complete_question t ?s1"
      by (rule tick_step_Completed [OF assms(1) p])
    have "answers (result ?s2) ! qCount (result ?s2) = 0"
      using T assms(2) by (simp add: autosave_keeps)
    then have "board (evaluate ?s2) = board ?s2" by (rule evaluate_unanswered)
    then show ?thesis using T by (simp add: ts complete_question_board autosave_keeps) (simp add: board_def)
  next
    assume a: "outcome_of (poll rnd s t) = Some (Answered k) \<and> k - 1 \<noteq> correctIndex (curq s)"
    then have p: "poll rnd s t = Completed (Answered k) ?s1" by (simp add: outcome_of_Some)
    note A = poll_Answered [OF p]
    have ts: "tick_step rnd s t = complete_question t ?s1"
      by (rule tick_step_Completed [OF assms(1) p])
    have ak: "answers (result ?s2) ! qCount (result ?s2) = k"
      using A assms(2) by (simp add: autosave_keeps)
    have "board (evaluate ?s2) = (score ?s2 - penalty (curq ?s2), correctCount ?s2, wrongCount ?s2 + 1, 0)"
      by (rule evaluate_wrong) (use ak A a in \<open>simp_all add: autosave_keeps\<close>)
    moreover have "board ?s2 = board s" "curq ?s2 = curq s" using A by (simp_all add: autosave_keeps)
    ultimately show ?thesis
      by (simp add: ts complete_question_board) (simp add: board_def)
  qed
qed

lemma neutral_tick:
  assumes "qi s < quizCount s" "qCount (result s) < length (answers (result s))"
    and "outcome_of (poll rnd s t) = Some Skipped \<or> outcome_of (poll rnd s t) = None"
  shows "board (tick_step rnd s t) = board s"
proof -
  let ?s1 = "state_of (poll rnd s t)"
  let ?s2 = "autosave True t ?s1"
  from assms(3) show ?thesis
  proof
    assume "outcome_of (poll rnd s t) = Some Skipped"
    then have p: "poll rnd s t = Completed Skipped ?s1" by (rule outcome_of_Some)
    note S = poll_Skipped [OF p]
    have ts: "tick_step rnd s t = complete_question t ?s1"
      by (rule tick_step_Completed [OF assms(1) p])
    have "answers (result ?s2) ! qCount (result ?s2) = 0"
      using S assms(2) by (simp add: autosave_keeps)
    then have "board (evaluate ?s2) = board ?s2" by (rule evaluate_unanswered)
    then show ?thesis using S by (simp add: ts complete_question_board autosave_keeps)
  next
    assume "outcome_of (poll rnd s t) = None"
    then have "poll rnd s t = Continue ?s1 \<or> poll rnd s t = Redraw ?s1" by (rule outcome_of_None)
    then show ?thesis
    proof
      assume p: "poll rnd s t = Continue ?s1"
      show ?thesis using poll_Continue_board [OF p] tick_step_Continue [OF assms(1) p] by simp
    next
      assume p: "poll rnd s t = Redraw ?s1"
      show ?thesis using poll_Redraw_board [OF p] tick_step_Redraw [OF assms(1) p]
        by (simp add: autosave_keeps)
    qed
  qed
qed

lemma correct_tick:
  assumes "qi s < quizCount s" "qCount (result s) < length (answers (result s))"
    "answers_correctly t (curq s)"
  shows "board (tick_step rnd s t) =
     (score s + (if difficulty (curq s) = 1 then 10 else if difficulty (curq s) = 2 then 15 else 20)
        + (if streak s + 1 = 3 then 5 else if streak s + 1 = 5 then 15 else 0),
      correctCount s + 1, wrongCount s, streak s + 1)"
   and "quizQuestions (tick_step rnd s t) = quizQuestions s"
   and "quizCount (tick_step rnd s t) = quizCount s"
   and "qi (tick_step rnd s t) = qi s + 1"
   and "qCount (result (tick_step rnd s t)) = qCount (result s) + 1"
   and "length (answers (result (tick_step rnd s t))) = length (answers (result s))"
proof -
  let ?k = "of_char (key t) - of_char (CHR ''0'') :: int"
  from assms(3) have kr: "CHR ''1'' \<le> key t" "key t \<le> CHR ''4''" and kc: "?k - 1 = correctIndex (curq s)"
    by (simp_all add: answers_correctly_def)
  define s1 where "s1 = set_saved_rem (max 0 (endTime s - t_key t))
        ((set_answer ?k s)\<lparr>remainingSeconds := max 0 (endTime s - t_key t)\<rparr>)"
  have p: "poll rnd s t = Completed (Answered ?k) s1"
    using poll_answer_key [OF kr] by (simp add: s1_def)
  have ts: "tick_step rnd s t = complete_question t s1"
    by (rule tick_step_Completed [OF assms(1) p])
  note A = poll_Answered [OF p]
  let ?s2 = "autosave True t s1"
  have a: "answers (result ?s2) ! qCount (result ?s2) = ?k"
    using A assms(2) by (simp add: autosave_keeps)
  have k0: "?k \<noteq> 0" using A by simp
  have b2: "board ?s2 = board s" "curq ?s2 = curq s"
    using A by (simp_all add: autosave_keeps)
  have "board (tick_step rnd s t) = board (evaluate ?s2)"
    by (simp add: ts complete_question_board)
  also have "\<dots> =
     (score ?s2 + (if difficulty (curq ?s2) = 1 then 10 else if difficulty (curq ?s2) = 2 then 15 else 20)
        + (if streak ?s2 + 1 = 3 then 5 else if streak ?s2 + 1 = 5 then 15 else 0),
      correctCount ?s2 + 1, wrongCount ?s2, streak ?s2 + 1)"
    by (rule evaluate_correct) (use a k0 kc A in \<open>simp_all add: autosave_keeps\<close>)
  also have "\<dots> =
     (score s + (if difficulty (curq s) = 1 then 10 else if difficulty (curq s) = 2 then 15 else 20)
        + (if streak s + 1 = 3 then 5 else if streak s + 1 = 5 then 15 else 0),
      correctCount s + 1, wrongCount s, streak s + 1)"
    using b2 unfolding board_def by (simp only: prod.inject)
  finally show "board (tick_step rnd s t) =
     (score s + (if difficulty (curq s) = 1 then 10 else if difficulty (curq s) = 2 then 15 else 20)
        + (if streak s + 1 = 3 then 5 else if streak s + 1 = 5 then 15 else 0),
      correctCount s + 1, wrongCount s, streak s + 1)" .
  have fr: "quizQuestions s1 = quizQuestions s \<and> quizCount s1 = quizCount s \<and> qi s1 = qi s"
    by (simp add: s1_def set_saved_rem_def set_answer_def)
  show "quizQuestions (tick_step rnd s t) = quizQuestions s"
    "quizCount (tick_step rnd s t) = quizCount s"
    "qi (tick_step rnd s t) = qi s + 1"
    "qCount (result (tick_step rnd s t)) = qCount (result s) + 1"
    "length (answers (result (tick_step rnd s t))) = length (answers (result s))"
    using fr A by (simp_all add: ts complete_question_frame)
qed

lemma correct_run:
  assumes "list_all2 answers_correctly ts (drop (qi s) (quizQuestions s))"
    and "length (quizQuestions s) = quizCount s"
    and "list_all (\<lambda>q. difficulty q = 1) (drop (qi s) (quizQuestions s))"
    and "qCount (result s) + length ts \<le> length (answers (result s))"
  shows "board (run rnd s ts) =
     (score s + 10 * int (length ts) + streak_bonus (streak s) (length ts),
      correctCount s + int (length ts), wrongCount s, streak s + int (length ts)) \<and>
     qi (run rnd s ts) = qi s + length ts"
  using assms
proof (induction ts arbitrary: s)
  case Nil
  then show ?case by (simp add: run_def board_def streak_bonus_def)
next
  case (Cons t ts)
  from Cons.prems(1) obtain q qs where d: "drop (qi s) (quizQuestions s) = q # qs"
    and aq: "answers_correctly t q" and rest: "list_all2 answers_correctly ts qs"
    by (auto simp: list_all2_Cons1)
  from d have lt: "qi s < length (quizQuestions s)"
    by (metis drop_all list.distinct(1) not_le)
  have cq: "curq s = q" using d lt
    by (metis curq_def Cons_nth_drop_Suc list.inject)
  have qs: "drop (Suc (qi s)) (quizQuestions s) = qs" using d
    by (metis drop_Suc tl_drop list.sel(3))
  let ?s' = "tick_step rnd s t"
  have h1: "qi s < quizCount s" using lt Cons.prems(2) by simp
  have h2: "qCount (result s) < length (answers (result s))" using Cons.prems(4) by simp
  have h3: "answers_correctly t (curq s)" using aq cq by simp
  note step = correct_tick [OF h1 h2 h3, of rnd]
  have dq: "difficulty q = 1" using Cons.prems(3) d by simp
  have IH: "board (run rnd ?s' ts) =
     (score ?s' + 10 * int (length ts) + streak_bonus (streak ?s') (length ts),
      correctCount ?s' + int (length ts), wrongCount ?s', streak ?s' + int (length ts)) \<and>
     qi (run rnd ?s' ts) = qi ?s' + length ts"
    apply (rule Cons.IH)
    using rest qs Cons.prems step(2-6) d by simp_all
  have r: "run rnd s (t # ts) = run rnd ?s' ts" by (simp add: run_def)
  show ?case
    using IH step(1,4) dq cq unfolding r
    by (auto simp add: board_def streak_bonus_def)
qed

lemma startQuiz_init_fresh:
  assumes "select_questions rnd bank diff = ((qs, n), p)"
  shows "board (startQuiz_init rnd bank nm diff tc t0 f) = (0, 0, 0, 0)"
    and "qi (startQuiz_init rnd bank nm diff tc t0 f) = 0"
    and "qCount (result (startQuiz_init rnd bank nm diff tc t0 f)) = 0"
    and "length (answers (result (startQuiz_init rnd bank nm diff tc t0 f))) = 50"
    and "quizQuestions (startQuiz_init rnd bank nm diff tc t0 f) = qs"
    and "quizCount (startQuiz_init rnd bank nm diff tc t0 f) = n"
    and "allQ (startQuiz_init rnd bank nm diff tc t0 f) = bank"
    and "saveFile (startQuiz_init rnd bank nm diff tc t0 f) = f"
    and "0 < n \<Longrightarrow> endTime (startQuiz_init rnd bank nm diff tc t0 f) = t0 + 10"
    and "lif_5050 (startQuiz_init rnd bank nm diff tc t0 f) \<and> lif_skip (startQuiz_init rnd bank nm diff tc t0 f) \<and>
         lif_replace (startQuiz_init rnd bank nm diff tc t0 f) \<and> lif_extra (startQuiz_init rnd bank nm diff tc t0 f)"
    and "playerName (result (startQuiz_init rnd bank nm diff tc t0 f)) = (if nm = [] then ''Player'' else nm)"
  by (simp_all add: startQuiz_init_def assms begin_question_def board_def Let_def
      MAX_QUIZ_QUESTIONS_def DEFAULT_TIME_PER_QUESTION_def)

section \<open>Facts about the example session\<close>

lemma answers_correctly_answer_key:
  assumes "0 \<le> correctIndex q" "correctIndex q < 4"
  shows "answers_correctly (press (answer_key q) c now) q"
proof -
  have "correctIndex q = 0 \<or> correctIndex q = 1 \<or> correctIndex q = 2 \<or> correctIndex q = 3"
    using assms by arith
  then show ?thesis
    by (auto simp: answers_correctly_def press_def answer_key_def)
qed

lemma easy_bank_ok:
  "list_all (\<lambda>q. difficulty q = 1 \<and> 0 \<le> originalCorrectIndex q \<and> originalCorrectIndex q < 4) easy_bank"
  by (simp add: easy_bank_def mkq_def)

lemma easy_session_questions:
  "list_all (\<lambda>q. difficulty q = 1 \<and> 0 \<le> correctIndex q \<and> correctIndex q < 4)
     (quizQuestions easy_session)"
  "length (quizQuestions easy_session) = 10"
  "quizCount easy_session = 10"
proof -
  obtain qs n p where sel: "select_questions (\<lambda>n. n) easy_bank 1 = ((qs, n), p)"
    by (metis surj_pair)
  have Q: "\<And>q p. difficulty q = 1 \<and> 0 \<le> originalCorrectIndex q \<and> originalCorrectIndex q < 4 \<Longrightarrow>
     difficulty (fst (shuffleOptions (\<lambda>n. n) p q)) = 1 \<and>
     0 \<le> correctIndex (fst (shuffleOptions (\<lambda>n. n) p q)) \<and>
     correctIndex (fst (shuffleOptions (\<lambda>n. n) p q)) < 4"
    using shuffleOptions_correct shuffleOptions_keeps by metis
  have e1: "list_all (\<lambda>q. difficulty q = 1) easy_bank"
    by (simp add: easy_bank_def mkq_def)
  have S1: "list_all (\<lambda>q. difficulty q = 1 \<and> 0 \<le> correctIndex q \<and> correctIndex q < 4) qs"
    by (rule select_questions_all(1) [OF easy_bank_ok _ sel]) (rule Q)
  note S = select_questions_count [OF sel]
  have n: "n = 10" using S(3) [OF e1] by (simp add: easy_bank_def)
  note F = startQuiz_init_fresh [OF sel, of "''Ann''" 1000 1000 Absent, folded easy_session_def]
  show "list_all (\<lambda>q. difficulty q = 1 \<and> 0 \<le> correctIndex q \<and> correctIndex q < 4)
     (quizQuestions easy_session)" using S1 F(5) by simp
  show "length (quizQuestions easy_session) = 10" using S(1) F(5) n by simp
  show "quizCount easy_session = 10" using F(6) n by simp
qed

lemma easy_session_fresh:
  "board easy_session = (0, 0, 0, 0)" "qi easy_session = 0" "qCount (result easy_session) = 0"
  "length (answers (result easy_session)) = 50" "endTime easy_session = 1010"
  "lif_skip easy_session" "lif_extra easy_session" "lif_replace easy_session" "lif_5050 easy_session"
  "allQ easy_session = easy_bank" "saveFile easy_session = Absent"
  "playerName (result easy_session) = ''Ann''"
proof -
  obtain qs n p where sel: "select_questions (\<lambda>n. n) easy_bank 1 = ((qs, n), p)"
    by (metis surj_pair)
  note F = startQuiz_init_fresh [OF sel, of "''Ann''" 1000 1000 Absent, folded easy_session_def]
  have "n = 10" using F(6) easy_session_questions(3) by simp
  then show "board easy_session = (0, 0, 0, 0)" "qi easy_session = 0" "qCount (result easy_session) = 0"
    "length (answers (result easy_session)) = 50" "endTime easy_session = 1010"
    "lif_skip easy_session" "lif_extra easy_session" "lif_replace easy_session" "lif_5050 easy_session"
    "allQ easy_session = easy_bank" "saveFile easy_session = Absent"
    "playerName (result easy_session) = ''Ann''"
    using F by simp_all
qed

lemma easy_session_curq:
  "difficulty (curq easy_session) = 1" "0 \<le> correctIndex (curq easy_session)"
  "correctIndex (curq easy_session) < 4"
proof -
  have "curq easy_session \<in> set (quizQuestions easy_session)"
    by (simp add: curq_def easy_session_fresh(2) easy_session_questions(2))
  then show "difficulty (curq easy_session) = 1" "0 \<le> correctIndex (curq easy_session)"
    "correctIndex (curq easy_session) < 4"
    using easy_session_questions(1) by (auto simp: list_all_iff)
qed

section \<open>Properties of the lifeline menu\<close>

lemma replace_search_Some:
  assumes "replace_search rnd bank txt n p = (Some cand, p')" "bank \<noteq> []"
  shows "\<exists>r p0. r < length bank \<and> qtext (bank ! r) \<noteq> txt \<and>
           cand = fst (shuffleOptions rnd p0 (bank ! r))"
  using assms(1)
proof (induction n arbitrary: p)
  case 0
  then show ?case by simp
next
  case (Suc n)
  let ?r = "rnd p mod length bank"
  have r: "?r < length bank" using assms(2) by simp
  show ?case
  proof (cases "qtext (bank ! ?r) \<noteq> txt")
    case True
    then have "cand = fst (shuffleOptions rnd (Suc p) (bank ! ?r))"
      using Suc.prems by (simp add: Let_def split: prod.splits)
    then show ?thesis using True r by blast
  next
    case False
    then have "replace_search rnd bank txt n (Suc p) = (Some cand, p')"
      using Suc.prems by (simp add: Let_def)
    then show ?thesis by (rule Suc.IH)
  qed
qed

lemma replace_search_None:
  assumes "list_all (\<lambda>b. qtext b = txt) bank" "bank \<noteq> [] \<or> n = 0"
  shows "replace_search rnd bank txt n p = (None, p + n)"
  using assms(2)
proof (induction n arbitrary: p)
  case 0
  then show ?case by simp
next
  case (Suc n)
  then have ne: "bank \<noteq> []" by simp
  then have "rnd p mod length bank < length bank" by simp
  then have "qtext (bank ! (rnd p mod length bank)) = txt"
    using assms(1) by (simp add: list_all_length)
  then show ?case using Suc.IH [of "Suc p"] ne by (simp add: Let_def)
qed

lemma menu_replace:
  assumes "key t = CHR ''L'' \<or> key t = CHR ''l''" "li t = 3" "lif_replace s"
  shows "poll rnd s t =
     (let rem = max 0 (endTime s - t_key t);
          s1 = (set_saved_rem rem (s\<lparr>remainingSeconds := rem\<rparr>))\<lparr>lif_replace := False\<rparr>;
          fp = replace_search rnd (allQ s) (qtext (curq s)) (length (allQ s)) (rpos s);
          s2 = (case fst fp of
                  None \<Rightarrow> say ''No replacement found.'' s1
                | Some cand \<Rightarrow>
                    say ''Question replaced. Remaining time preserved.''
                      (s1\<lparr>quizQuestions := (quizQuestions s)[qi s := cand],
                          visibleOptions := [0, 1, 2, 3], visibleCount := 4\<rparr>))
      in Redraw (s2\<lparr>endTime := t_menu t + rem, rpos := snd fp\<rparr>))"
  using assms
  by (auto simp: poll_def lifeline_menu_def Let_def set_saved_rem_def curq_def say_def
      split: prod.splits option.splits)

lemma menu_extra:
  assumes "key t = CHR ''L'' \<or> key t = CHR ''l''" "li t = 4" "lif_extra s"
  shows "poll rnd s t =
     (let rem = max 0 (endTime s - t_key t);
          s1 = set_saved_rem rem (s\<lparr>remainingSeconds := rem\<rparr>)
      in if rem \<le> 0 then Redraw (say ''Cannot use Extra Time: question already expired.'' s1)
         else Redraw (say (''Extra Time applied. +'' @ show_int EXTRA_TIME_AMOUNT @
                           ''s added. New remaining: '' @ show_int (rem + EXTRA_TIME_AMOUNT) @
                           ''s. Resuming timer.'')
                (s1\<lparr>lif_extra := False, remainingSeconds := rem + EXTRA_TIME_AMOUNT,
                    endTime := t_menu t + (rem + EXTRA_TIME_AMOUNT)\<rparr>)))"
  using assms
  by (auto simp: poll_def lifeline_menu_def Let_def set_saved_rem_def say_def)

lemma menu_5050:
  assumes "key t = CHR ''L'' \<or> key t = CHR ''l''" "li t = 1" "lif_5050 s"
  shows "poll rnd s t =
     (let rem = max 0 (endTime s - t_key t);
          s1 = set_saved_rem rem (s\<lparr>remainingSeconds := rem\<rparr>);
          ap = apply5050 rnd (rpos s) (curq s) (visibleOptions s)
      in Redraw (say ''50/50 used. Two wrong options removed. Resuming timer.''
                  (s1\<lparr>lif_5050 := False, visibleOptions := fst (fst ap),
                      visibleCount := snd (fst ap), rpos := snd ap\<rparr>)))"
  using assms
  by (auto simp: poll_def lifeline_menu_def Let_def set_saved_rem_def say_def curq_def
      split: prod.splits)

lemma poll_lifelines_mono:
  "(lif_extra (state_of (poll rnd s t)) \<longrightarrow> lif_extra s) \<and>
   (lif_replace (state_of (poll rnd s t)) \<longrightarrow> lif_replace s) \<and>
   (lif_skip (state_of (poll rnd s t)) \<longrightarrow> lif_skip s) \<and>
   (lif_5050 (state_of (poll rnd s t)) \<longrightarrow> lif_5050 s)"
  by (auto simp: poll_defs split: if_splits prod.splits option.splits)

lemma after_poll_lifelines:
  "lif_extra (autosave c t s) = lif_extra s \<and> lif_replace (autosave c t s) = lif_replace s \<and>
   lif_skip (autosave c t s) = lif_skip s \<and> lif_5050 (autosave c t s) = lif_5050 s"
  "lif_extra (complete_question t s) = lif_extra s \<and>
   lif_replace (complete_question t s) = lif_replace s \<and>
   lif_skip (complete_question t s) = lif_skip s \<and> lif_5050 (complete_question t s) = lif_5050 s"
  by (simp_all add: autosave_def complete_question_def finish_question_def begin_question_def
      evaluate_def set_saved_rem_def say_def Let_def)

lemma tick_step_state_of:
  "tick_step rnd s t =
     (if qi s \<ge> quizCount s then s
      else case poll rnd s t of
             Continue s1 \<Rightarrow> state_of (poll rnd s t)
           | Redraw s1 \<Rightarrow> autosave False t (state_of (poll rnd s t))
           | Completed oc s1 \<Rightarrow> complete_question t (state_of (poll rnd s t)))"
  by (simp add: tick_step_def split: flow.splits)

lemma tick_step_lifelines_mono:
  "(lif_extra (tick_step rnd s t) \<longrightarrow> lif_extra s) \<and>
   (lif_replace (tick_step rnd s t) \<longrightarrow> lif_replace s) \<and>
   (lif_skip (tick_step rnd s t) \<longrightarrow> lif_skip s) \<and>
   (lif_5050 (tick_step rnd s t) \<longrightarrow> lif_5050 s)"
  using poll_lifelines_mono [of rnd s t]
  by (simp add: tick_step_state_of after_poll_lifelines split: flow.splits)

lemma run_lifelines_mono:
  "(lif_extra (run rnd s ts) \<longrightarrow> lif_extra s) \<and>
   (lif_replace (run rnd s ts) \<longrightarrow> lif_replace s) \<and>
   (lif_skip (run rnd s ts) \<longrightarrow> lif_skip s) \<and>
   (lif_5050 (run rnd s ts) \<longrightarrow> lif_5050 s)"
proof (induction ts arbitrary: s)
  case Nil
  then show ?case by (simp add: run_def)
next
  case (Cons t ts)
  have "run rnd s (t # ts) = run rnd (tick_step rnd s t) ts" by (simp add: run_def)
  then show ?case using Cons.IH [of "tick_step rnd s t"] tick_step_lifelines_mono [of rnd s t]
    by auto
qed

lemma single_session_facts:
  "lif_replace single_session" "allQ single_session = single_bank"
  "qi single_session = 0" "quizCount single_session = 1"
  "length (quizQuestions single_session) = 1"
  "qtext (curq single_session) = ''Q0''"
  "endTime single_session = 1010"
proof -
  obtain qs n p where sel: "select_questions (\<lambda>n. n) single_bank 1 = ((qs, n), p)"
    by (metis surj_pair)
  have b: "list_all (\<lambda>q. qtext q = ''Q0'') single_bank" "list_all (\<lambda>q. difficulty q = 1) single_bank"
    by (simp_all add: single_bank_def mkq_def)
  have S1: "list_all (\<lambda>q. qtext q = ''Q0'') qs"
    by (rule select_questions_all(1) [OF b(1) _ sel]) (simp add: shuffleOptions_keeps)
  note S = select_questions_count [OF sel]
  have n: "n = 1" using S(3) [OF b(2)] by (simp add: single_bank_def)
  note F = startQuiz_init_fresh [OF sel, of "''Ann''" 1000 1000 Absent, folded single_session_def]
  show "lif_replace single_session" "allQ single_session = single_bank"
    "qi single_session = 0" "quizCount single_session = 1"
    "length (quizQuestions single_session) = 1" "endTime single_session = 1010"
    using F S(1) n by simp_all
  have "qs \<noteq> []" using S(1) n by auto
  then show "qtext (curq single_session) = ''Q0''"
    using S1 F(2,5) by (cases qs) (simp_all add: curq_def)
qed

lemma replace_without_alternative:
  assumes "key t = CHR ''L'' \<or> key t = CHR ''l''" "li t = 3" "lif_replace s"
    and "list_all (\<lambda>b. qtext b = qtext (curq s)) (allQ s)"
  shows "outcome_of (poll rnd s t) = None"
    and "\<not> lif_replace (state_of (poll rnd s t))"
    and "out (state_of (poll rnd s t)) = out s @ [''No replacement found.'']"
    and "quizQuestions (state_of (poll rnd s t)) = quizQuestions s"
proof -
  have "replace_search rnd (allQ s) (qtext (curq s)) (length (allQ s)) (rpos s)
          = (None, rpos s + length (allQ s))"
    by (rule replace_search_None [OF assms(4)]) auto
  then show "outcome_of (poll rnd s t) = None"
    "\<not> lif_replace (state_of (poll rnd s t))"
    "out (state_of (poll rnd s t)) = out s @ [''No replacement found.'']"
    "quizQuestions (state_of (poll rnd s t)) = quizQuestions s"
    by (simp_all add: menu_replace [OF assms(1-3)] Let_def say_def set_saved_rem_def)
qed

section \<open>Printing an integer and reading it back\<close>

lemma digit_char_props:
  assumes "d < 10"
  shows "is_digit (digit_char d)" "digit_val (digit_char d) = d" "\<not> is_space (digit_char d)"
    "digit_char d \<noteq> CHR ''-''" "digit_char d \<noteq> CHR ''+''" "digit_char d \<noteq> CHR 0x0A"
    "digit_char d \<noteq> CHR ''|''" "digit_char d \<noteq> CHR '' ''"
proof -
  have o: "(of_char (digit_char d) :: nat) = 48 + d"
    using assms by (simp add: digit_char_def)
  show "is_digit (digit_char d)" using assms by (simp add: is_digit_def less_eq_char_def o)
  show "digit_val (digit_char d) = d" by (simp add: digit_val_def o)
  have ne: "digit_char d \<noteq> c" if "(of_char c :: nat) < 48 \<or> 57 < (of_char c :: nat)" for c
  proof
    assume "digit_char d = c"
    then have "(of_char c :: nat) = 48 + d" using o by simp
    then show False using that assms by linarith
  qed
  show "\<not> is_space (digit_char d)" "digit_char d \<noteq> CHR ''-''" "digit_char d \<noteq> CHR ''+''"
    "digit_char d \<noteq> CHR 0x0A" "digit_char d \<noteq> CHR '' ''" "digit_char d \<noteq> CHR ''|''"
    using ne [of "CHR '' ''"] ne [of "CHR 0x09"] ne [of "CHR 0x0A"] ne [of "CHR 0x0B"]
      ne [of "CHR 0x0C"] ne [of "CHR 0x0D"] ne [of "CHR ''-''"] ne [of "CHR ''+''"] ne [of "CHR ''|''"]
    by (simp_all add: is_space_def)
qed

lemma digits_props:
  "digits n \<noteq> [] \<and> list_all is_digit (digits n) \<and> digits_val (digits n) = n"
proof (induction n rule: digits.induct)
  case (1 n)
  show ?case
  proof (cases "n < 10")
    case True
    then show ?thesis
      by (subst (1 2 3) digits.simps) (simp add: digit_char_props digits_val_def)
  next
    case False
    have m: "n mod 10 < 10" by simp
    have v: "digits_val (digits (n div 10) @ [digit_char (n mod 10)]) =
             10 * digits_val (digits (n div 10)) + n mod 10"
      by (simp add: digits_val_def digit_char_props(2) [OF m])
    from False 1 [OF False] show ?thesis
      by (subst (1 2 3) digits.simps) (simp add: digit_char_props(1) [OF m] v)
  qed
qed

lemma is_digit_not:
  "is_digit c \<Longrightarrow> \<not> is_space c \<and> c \<noteq> CHR ''-'' \<and> c \<noteq> CHR ''+'' \<and> c \<noteq> CHR 0x0A \<and> c \<noteq> CHR ''|'' \<and> c \<noteq> CHR '' ''"
  by (auto simp: is_digit_def is_space_def)

lemma show_int_chars:
  "show_int v \<noteq> [] \<and> list_all (\<lambda>c. is_digit c \<or> c = CHR ''-'') (show_int v)"
  using digits_props [of "nat v"] digits_props [of "nat (- v)"]
  by (auto simp: show_int_def list_all_iff)

lemma show_int_free:
  "CHR 0x0A \<notin> set (show_int v)" "CHR ''|'' \<notin> set (show_int v)" "CHR '' '' \<notin> set (show_int v)"
  using show_int_chars [of v] is_digit_not by (auto simp: list_all_iff)

lemma scan_int_show_int:
  assumes "rest = [] \<or> \<not> is_digit (hd rest)"
  shows "scan_int (show_int v @ rest) = Some (v, rest)"
proof -
  have tw: "takeWhile is_digit (digits n @ rest) = digits n"
    "dropWhile is_digit (digits n @ rest) = rest" for n
    using digits_props [of n] assms
    by (cases rest; simp add: list_all_iff takeWhile_append2 dropWhile_append2)+
  have hd0: "is_digit (hd (digits n))" "digits n \<noteq> []" for n
    using digits_props [of n] by (cases "digits n"; simp)+
  show ?thesis
  proof (cases "v < 0")
    case True
    then have s: "show_int v = CHR ''-'' # digits (nat (- v))" by (simp add: show_int_def)
    show ?thesis using True digits_props [of "nat (- v)"]
      by (simp add: scan_int_def s is_space_def tw Let_def)
  next
    case False
    then have s: "show_int v = digits (nat v)" by (simp add: show_int_def)
    obtain c cs where d: "digits (nat v) = c # cs" using hd0 (2) [of "nat v"] by (cases "digits (nat v)") auto
    have c: "is_digit c" using hd0 (1) [of "nat v"] d by simp
    have dw: "dropWhile is_space (digits (nat v) @ rest) = digits (nat v) @ rest"
      using is_digit_not [OF c] by (simp add: d)
    have nsign: "hd (digits (nat v) @ rest) \<noteq> CHR ''-''" "hd (digits (nat v) @ rest) \<noteq> CHR ''+''"
      using is_digit_not [OF c] by (simp_all add: d)
    have ne: "digits (nat v) @ rest \<noteq> []" by (simp add: d)
    show ?thesis using False digits_props [of "nat v"] nsign ne
      by (simp add: scan_int_def s dw tw Let_def)
  qed
qed

lemma stoi_show_int:
  "- (2 ^ 31) \<le> v \<Longrightarrow> v \<le> 2 ^ 31 - 1 \<Longrightarrow> stoi (show_int v) = Some v"
  using scan_int_show_int [of "[]" v] by (simp add: stoi_def)

section \<open>Writing the high-score log and reading it back\<close>

lemma takeWhile_stop:
  "c \<notin> set a \<Longrightarrow> takeWhile (\<lambda>x. x \<noteq> c) (a @ c # b) = a"
  "c \<notin> set a \<Longrightarrow> dropWhile (\<lambda>x. x \<noteq> c) (a @ c # b) = c # b"
  by (induction a) auto

lemma getline_line:
  "CHR 0x0A \<notin> set l \<Longrightarrow> getline (l @ CHR 0x0A # rest) = Some (l, rest)"
  by (simp add: getline_def takeWhile_stop)

lemma str_find_first:
  "c \<notin> set a \<Longrightarrow> str_find c 0 (a @ c # b) = Some (length a)"
  by (simp add: str_find_def takeWhile_stop)

lemma str_find_second:
  "c \<notin> set b \<Longrightarrow> str_find c (length a + 1) (a @ c # b @ c # d) = Some (length a + 1 + length b)"
  by (simp add: str_find_def takeWhile_stop)

lemma read_scores_entry:
  assumes "entry_ok e"
  shows "read_scores (entry_line e @ rest) outScores =
           read_scores rest (if length outScores < MAX_QUIZ_QUESTIONS then outScores @ [e] else outScores)"
proof -
  let ?nm = "name e" and ?sc = "show_int (entry_score e)" and ?dt = "datetime e"
  let ?line = "?nm @ CHR ''|'' # ?sc @ CHR ''|'' # ?dt"
  from assms have ok: "CHR ''|'' \<notin> set ?nm" "CHR 0x0A \<notin> set ?nm" "CHR 0x0A \<notin> set ?dt"
    "- (2 ^ 31) \<le> entry_score e" "entry_score e \<le> 2 ^ 31 - 1"
    by (simp_all add: entry_ok_def)
  have nl: "CHR 0x0A \<notin> set ?line" using ok show_int_free(1) [of "entry_score e"] by simp
  have el: "entry_line e @ rest = ?line @ CHR 0x0A # rest" by (simp add: entry_line_def)
  have g: "getline (entry_line e @ rest) = Some (?line, rest)"
    unfolding el by (rule getline_line [OF nl])
  have p1: "str_find (CHR ''|'') 0 ?line = Some (length ?nm)"
    by (rule str_find_first [OF ok(1)])
  have p2: "str_find (CHR ''|'') (length ?nm + 1) ?line = Some (length ?nm + 1 + length ?sc)"
    by (rule str_find_second) (rule show_int_free(2))
  have f1: "substr ?line 0 (length ?nm) = ?nm" by (simp add: substr_def)
  have f2: "substr ?line (length ?nm + 1) (length ?nm + 1 + length ?sc - length ?nm - 1) = ?sc"
    by (simp add: substr_def)
  have f3: "drop (length ?nm + 1 + length ?sc + 1) ?line = ?dt" by simp
  have st: "stoi ?sc = Some (entry_score e)" by (rule stoi_show_int [OF ok(4,5)])
  have ne: "?line \<noteq> []" by simp
  have re: "\<lparr>name = ?nm, entry_score = entry_score e, datetime = ?dt\<rparr> = e" by simp
  show ?thesis
    by (subst read_scores.simps)
      (simp only: g p1 p2 f1 f2 f3 st ne re option.case prod.case if_False Let_def)
qed


lemma read_scores_entries:
  assumes "list_all entry_ok es"
  shows "read_scores (concat (map entry_line es)) outScores =
           outScores @ take (MAX_QUIZ_QUESTIONS - length outScores) es"
  using assms
proof (induction es arbitrary: outScores)
  case Nil
  show ?case by (subst read_scores.simps) (simp add: getline_def)
next
  case (Cons e es)
  then have e: "entry_ok e" and es: "list_all entry_ok es" by simp_all
  have "read_scores (concat (map entry_line (e # es))) outScores =
        read_scores (concat (map entry_line es))
          (if length outScores < MAX_QUIZ_QUESTIONS then outScores @ [e] else outScores)"
    using read_scores_entry [OF e] by simp
  also have "\<dots> = (if length outScores < MAX_QUIZ_QUESTIONS then outScores @ [e] else outScores) @
      take (MAX_QUIZ_QUESTIONS - length (if length outScores < MAX_QUIZ_QUESTIONS then outScores @ [e] else outScores)) es"
    by (rule Cons.IH [OF es])
  also have "\<dots> = outScores @ take (MAX_QUIZ_QUESTIONS - length outScores) (e # es)"
  proof (cases "length outScores < MAX_QUIZ_QUESTIONS")
    case True
    then obtain k where k: "MAX_QUIZ_QUESTIONS - length outScores = Suc k"
      by (metis Suc_diff_Suc)
    then have "MAX_QUIZ_QUESTIONS - Suc (length outScores) = k" by simp
    then show ?thesis using True k by simp
  next
    case False
    then show ?thesis by simp
  qed
  finally show ?case .
qed

lemma writes_content:
  "foldl writeHighScore (Content c) es = Content (c @ concat (map entry_line es))"
  by (induction es arbitrary: c) (simp_all add: writeHighScore_def)

lemma writes_fresh:
  assumes "f = Absent \<or> f = Content []"
  shows "readHighScores (foldl writeHighScore f es) = read_scores (concat (map entry_line es)) []"
proof (cases es)
  case Nil
  have "read_scores [] [] = []" by (subst read_scores.simps) (simp add: getline_def)
  then show ?thesis using assms Nil by (auto simp: readHighScores_def)
next
  case (Cons e es')
  have "foldl writeHighScore f (e # es') = foldl writeHighScore (Content (entry_line e)) es'"
    using assms by (auto simp: writeHighScore_def)
  then show ?thesis using Cons by (simp add: writes_content readHighScores_def)
qed

lemma read_after_write:
  assumes "list_all entry_ok es" "f = Absent \<or> f = Content []"
  shows "readHighScores (foldl writeHighScore f es) = take MAX_QUIZ_QUESTIONS es"
  using read_scores_entries [OF assms(1), of "[]"] writes_fresh [OF assms(2), of es] by simp

section \<open>The snapshot read back\<close>

lemma scan_int_space: "scan_int (CHR '' '' # s) = scan_int s"
  by (simp add: scan_int_def is_space_def)

lemma not_digit_space: "\<not> is_digit (CHR '' '')"
  by (simp add: is_digit_def)

lemma sscanf4_line:
  "sscanf4 (show_int a @ '' '' @ show_int b @ '' '' @ show_int c @ '' '' @ show_int d) = Some (a, b, c, d)"
proof -
  have 1: "scan_int (show_int a @ CHR '' '' # r) = Some (a, CHR '' '' # r)" for a r
    by (rule scan_int_show_int) (simp add: not_digit_space)
  have 2: "scan_int (show_int d) = Some (d, [])"
    using scan_int_show_int [of "[]" d] by simp
  show ?thesis
    by (simp add: sscanf4_def 1 2 scan_int_space)
qed

lemma ints_line_free:
  "CHR 0x0A \<notin> set (concat (map (\<lambda>i. show_int (f i) @ '' '') xs))"
  using show_int_free(1) by (induction xs) auto

lemma load_save:
  assumes "f \<noteq> Unavailable" "CHR 0x0A \<notin> set (playerName r)"
    and "remainingSecondsForCurrent r \<le> 2 ^ 31 - 1" "- (2 ^ 31) \<le> remainingSecondsForCurrent r"
  shows "\<exists>r'. loadProgress (saveProgress f r) = Some r' \<and> playerName r' = playerName r \<and>
           res_score r' = res_score r \<and> correct r' = correct r \<and> wrong r' = wrong r \<and>
           timestamp r' = timestamp r \<and>
           remainingSecondsForCurrent r' = max 0 (remainingSecondsForCurrent r)"
proof -
  let ?l2 = "show_int (res_score r) @ '' '' @ show_int (correct r) @ '' '' @ show_int (wrong r) @ '' '' @
       show_int (timestamp r)"
  let ?l3 = "concat (map (\<lambda>i. show_int (answers r ! i) @ '' '') [0..<qCount r])"
  let ?l4 = "concat (map (\<lambda>i. show_int (questionIndices r ! i) @ '' '') [0..<qCount r])"
  let ?l5 = "show_int (remainingSecondsForCurrent r)"
  let ?c4 = "?l5 @ CHR 0x0A # []"
  let ?c3 = "?l4 @ CHR 0x0A # ?c4"
  let ?c2 = "?l3 @ CHR 0x0A # ?c3"
  let ?c1 = "?l2 @ CHR 0x0A # ?c2"
  let ?c0 = "playerName r @ CHR 0x0A # ?c1"
  have stx: "saveProgress_text r = ?c0" by (simp add: saveProgress_text_def)
  have sp: "saveProgress f r = Content ?c0"
    using assms(1) by (cases f) (simp_all add: saveProgress_def stx)
  have n2: "CHR 0x0A \<notin> set ?l2" using show_int_free(1) by simp
  have g0: "getline ?c0 = Some (playerName r, ?c1)" by (rule getline_line [OF assms(2)])
  have g1: "getline ?c1 = Some (?l2, ?c2)" by (rule getline_line [OF n2])
  have g2: "getline ?c2 = Some (?l3, ?c3)" by (rule getline_line [OF ints_line_free])
  have g3: "getline ?c3 = Some (?l4, ?c4)" by (rule getline_line [OF ints_line_free])
  have g4: "getline ?c4 = Some (?l5, [])" by (rule getline_line) (rule show_int_free(1))
  have s4: "sscanf4 ?l2 = Some (res_score r, correct r, wrong r, timestamp r)"
    by (rule sscanf4_line)
  have st: "stoi ?l5 = Some (remainingSecondsForCurrent r)"
    by (rule stoi_show_int [OF assms(4,3)])
  show ?thesis
    unfolding sp loadProgress_def
    by (simp only: disk_file.case g0 g1 g2 g3 g4 s4 st option.case prod.case Let_def) auto
qed

section \<open>The snapshot written by a pass\<close>

lemma saveProgress_twice: "saveProgress (saveProgress f r1) r2 = saveProgress f r2"
  by (cases f) (simp_all add: saveProgress_def)

lemma saveProgress_available: "f \<noteq> Unavailable \<Longrightarrow> saveProgress f r \<noteq> Unavailable"
  by (cases f) (simp_all add: saveProgress_def)

lemma poll_file_frame:
  "saveFile (state_of (poll rnd s t)) = saveFile s \<and>
   playerName (result (state_of (poll rnd s t))) = playerName (result s) \<and>
   qi (state_of (poll rnd s t)) = qi s \<and> quizCount (state_of (poll rnd s t)) = quizCount s"
  by (auto simp: poll_defs split: if_splits prod.splits option.splits)

lemma evaluate_frame:
  "result (evaluate s) = result s \<and> saveFile (evaluate s) = saveFile s \<and> qi (evaluate s) = qi s \<and>
   quizCount (evaluate s) = quizCount s"
  by (simp add: evaluate_def say_def Let_def)

lemma complete_question_snapshot:
  "saveFile (complete_question t s) =
     saveProgress (saveFile s) (result (finish_question t (evaluate (autosave True t s))))"
  "remainingSecondsForCurrent (result (finish_question t (evaluate (autosave True t s)))) = 0"
  "res_score (result (finish_question t (evaluate (autosave True t s)))) = score (complete_question t s)"
  "playerName (result (finish_question t (evaluate (autosave True t s)))) = playerName (result s)"
  "playerName (result (complete_question t s)) = playerName (result s)"
  "qi s + 1 < quizCount s \<Longrightarrow> endTime (complete_question t s) = t_start t + 10"
proof -
  let ?a = "autosave True t s"
  have a: "saveFile ?a = saveProgress (saveFile s) (result ?a)"
    "remainingSecondsForCurrent (result ?a) = 0" "playerName (result ?a) = playerName (result s)"
    "qi ?a = qi s" "quizCount ?a = quizCount s"
    by (simp_all add: autosave_def set_saved_rem_def Let_def)
  note e = evaluate_frame [of ?a]
  let ?f = "finish_question t (evaluate ?a)"
  have f: "saveFile ?f = saveProgress (saveFile (evaluate ?a)) (result ?f)"
    "remainingSecondsForCurrent (result ?f) = remainingSecondsForCurrent (result (evaluate ?a))"
    "playerName (result ?f) = playerName (result (evaluate ?a))"
    "res_score (result ?f) = score ?f" "qi ?f = qi (evaluate ?a)"
    "quizCount ?f = quizCount (evaluate ?a)"
    by (simp_all add: finish_question_def Let_def)
  have c: "saveFile (complete_question t s) = saveFile ?f" "score (complete_question t s) = score ?f"
    "playerName (result (complete_question t s)) = playerName (result ?f)"
    by (simp_all add: complete_question_def begin_question_def Let_def)
  show "saveFile (complete_question t s) = saveProgress (saveFile s) (result ?f)"
    using c(1) f(1) e a(1) by (simp add: saveProgress_twice)
  show "remainingSecondsForCurrent (result ?f) = 0" using f(2) e a(2) by simp
  show "res_score (result ?f) = score (complete_question t s)" using f(4) c(2) by simp
  show "playerName (result ?f) = playerName (result s)" using f(3) e a(3) by simp
  then show "playerName (result (complete_question t s)) = playerName (result s)" using c(3) by simp
  assume "qi s + 1 < quizCount s"
  then have "qi ?f + 1 < quizCount ?f" using f(5,6) e a(4,5) by simp
  moreover have "remainingSecondsForCurrent (result ?f) = 0" using f(2) e a(2) by simp
  ultimately show "endTime (complete_question t s) = t_start t + 10"
    by (simp add: complete_question_def begin_question_def Let_def DEFAULT_TIME_PER_QUESTION_def)
qed

lemma autosave_snapshot:
  "saveFile (autosave False t s) = saveProgress (saveFile s) (result (autosave False t s))"
  "remainingSecondsForCurrent (result (autosave False t s)) = max 0 (endTime s - t_rem t)"
  "res_score (result (autosave False t s)) = score s"
  "playerName (result (autosave False t s)) = playerName (result s)"
  by (simp_all add: autosave_def set_saved_rem_def Let_def)

lemma completing_tick:
  assumes "qi s < quizCount s" "outcome_of (poll rnd s t) \<noteq> None"
  shows "\<exists>r. saveFile (tick_step rnd s t) = saveProgress (saveFile s) r \<and>
       remainingSecondsForCurrent r = 0 \<and> res_score r = score (tick_step rnd s t) \<and>
       playerName r = playerName (result s)"
    and "playerName (result (tick_step rnd s t)) = playerName (result s)"
    and "qi (tick_step rnd s t) = qi s + 1" and "quizCount (tick_step rnd s t) = quizCount s"
    and "qi s + 1 < quizCount s \<Longrightarrow> endTime (tick_step rnd s t) = t_start t + 10"
proof -
  from assms(2) obtain oc where "outcome_of (poll rnd s t) = Some oc" by auto
  then have p: "poll rnd s t = Completed oc (state_of (poll rnd s t))" by (rule outcome_of_Some)
  note ts = tick_step_Completed [OF assms(1) p]
  note F = poll_file_frame [of rnd s t]
  note C = complete_question_snapshot [where t = t and s = "state_of (poll rnd s t)"]
  have "saveFile (tick_step rnd s t) = saveProgress (saveFile s)
          (result (finish_question t (evaluate (autosave True t (state_of (poll rnd s t))))))"
    using C(1) F by (simp add: ts)
  moreover have "res_score (result (finish_question t (evaluate (autosave True t (state_of (poll rnd s t))))))
      = score (tick_step rnd s t)" using C(3) by (simp add: ts)
  moreover have "playerName (result (finish_question t (evaluate (autosave True t (state_of (poll rnd s t))))))
      = playerName (result s)" using C(4) F by simp
  ultimately show "\<exists>r. saveFile (tick_step rnd s t) = saveProgress (saveFile s) r \<and>
       remainingSecondsForCurrent r = 0 \<and> res_score r = score (tick_step rnd s t) \<and>
       playerName r = playerName (result s)"
    using C(2) by blast
  show "playerName (result (tick_step rnd s t)) = playerName (result s)"
    using F C(5) by (simp add: ts)
  show "qi (tick_step rnd s t) = qi s + 1" "quizCount (tick_step rnd s t) = quizCount s"
    using F by (simp_all add: ts complete_question_frame)
  show "qi s + 1 < quizCount s \<Longrightarrow> endTime (tick_step rnd s t) = t_start t + 10"
    using F C(6) by (simp add: ts)
qed

lemma resume_prints_score:
  assumes "getIntInRange 1 4 inp = Some (3, inp1)" "getIntInRange 1 5 inp1 = Some (cat, inp2)"
    "loadProgress save = Some r"
  shows "\<exists>m. main_round save inp = Some m \<and> started m = None \<and>
             hd (printed m) = ''Found saved progress for player: '' @ playerName r @
                                '' | Score so far: '' @ show_int (res_score r)"
  using assms by (simp add: main_round_def)

section \<open>Every state of a session is well formed\<close>

lemma shuffleOptions_range:
  "0 \<le> correctIndex (fst (shuffleOptions rnd p q)) \<and> correctIndex (fst (shuffleOptions rnd p q)) < 4"
proof -
  have up: "[0..<4] = [0, 1, 2, 3]" by (simp add: upt_rec)
  have "0 \<le> fold (\<lambda>i nc. if idx ! i = c then int i else nc) [0..<4] 0 \<and>
        fold (\<lambda>i nc. if idx ! i = c then int i else nc) [0..<4] 0 < 4" for idx :: "int list" and c
    unfolding up by simp
  then show ?thesis
    by (simp add: shuffleOptions_def MAX_OPTIONS_def Let_def split: prod.splits)
qed

lemma apply5050_length:
  "length (fst (fst (apply5050 rnd p q vis))) = length vis"
  by (simp add: apply5050_def Let_def split: prod.splits)

lemma replace_search_range:
  "replace_search rnd bank txt n p = (Some cand, p') \<Longrightarrow> 0 \<le> correctIndex cand \<and> correctIndex cand < 4"
proof (induction n arbitrary: p)
  case 0
  then show ?case by simp
next
  case (Suc n)
  show ?case
  proof (cases "qtext (bank ! (rnd p mod length bank)) \<noteq> txt")
    case True
    then have "cand = fst (shuffleOptions rnd (Suc p) (bank ! (rnd p mod length bank)))"
      using Suc.prems by (simp add: Let_def split: prod.splits)
    then show ?thesis using shuffleOptions_range by simp
  next
    case False
    then show ?thesis using Suc by (simp add: Let_def)
  qed
qed

lemma poll_shape:
  "quizCount (state_of (poll rnd s t)) = quizCount s \<and> qi (state_of (poll rnd s t)) = qi s \<and>
   qCount (result (state_of (poll rnd s t))) = qCount (result s) \<and>
   length (answers (result (state_of (poll rnd s t)))) = length (answers (result s)) \<and>
   length (questionIndices (result (state_of (poll rnd s t)))) = length (questionIndices (result s)) \<and>
   length (quizQuestions (state_of (poll rnd s t))) = length (quizQuestions s)"
  by (simp add: poll_defs split_beta option.case_eq_if)

lemma poll_visible_length:
  "length (visibleOptions s) = 4 \<Longrightarrow> length (visibleOptions (state_of (poll rnd s t))) = 4"
  by (simp add: poll_defs split_beta option.case_eq_if apply5050_length)

lemma poll_questions:
  "quizQuestions (state_of (poll rnd s t)) = quizQuestions s \<or>
   (\<exists>cand p'. replace_search rnd (allQ s) (qtext (curq s)) (length (allQ s)) (rpos s) = (Some cand, p') \<and>
      quizQuestions (state_of (poll rnd s t)) = (quizQuestions s)[qi s := cand])"
proof (cases "fst (replace_search rnd (allQ s) (qtext (curq s)) (length (allQ s)) (rpos s))")
  case None
  then show ?thesis by (simp add: poll_defs split_beta option.case_eq_if)
next
  case (Some cand)
  then have "replace_search rnd (allQ s) (qtext (curq s)) (length (allQ s)) (rpos s)
      = (Some cand, snd (replace_search rnd (allQ s) (qtext (curq s)) (length (allQ s)) (rpos s)))"
    by (simp add: prod_eq_iff)
  moreover have "quizQuestions (state_of (poll rnd s t)) = quizQuestions s \<or>
      quizQuestions (state_of (poll rnd s t)) = (quizQuestions s)[qi s := cand]"
    using Some by (simp add: poll_defs split_beta option.case_eq_if)
  ultimately show ?thesis by blast
qed

lemma session_ok_poll:
  assumes "session_ok s"
  shows "session_ok (state_of (poll rnd s t))"
proof -
  let ?s' = "state_of (poll rnd s t)"
  have "list_all (\<lambda>q. 0 \<le> correctIndex q \<and> correctIndex q < 4) (quizQuestions ?s')"
    using poll_questions [of rnd s t]
  proof
    assume "quizQuestions ?s' = quizQuestions s"
    then show ?thesis using assms by (simp add: session_ok_def)
  next
    assume "\<exists>cand p'. replace_search rnd (allQ s) (qtext (curq s)) (length (allQ s)) (rpos s) = (Some cand, p') \<and>
      quizQuestions ?s' = (quizQuestions s)[qi s := cand]"
    then obtain cand p' where
      c: "replace_search rnd (allQ s) (qtext (curq s)) (length (allQ s)) (rpos s) = (Some cand, p')"
         "quizQuestions ?s' = (quizQuestions s)[qi s := cand]" by blast
    have "0 \<le> correctIndex cand \<and> correctIndex cand < 4" by (rule replace_search_range [OF c(1)])
    then show ?thesis using assms unfolding c(2)
      by (auto simp: session_ok_def list_all_iff dest!: set_update_subset_insert [THEN subsetD])
  qed
  then show ?thesis
    using assms poll_shape [of rnd s t] poll_visible_length [of s rnd t]
    by (simp add: session_ok_def MAX_OPTIONS_def)
qed

lemma session_ok_autosave: "session_ok (autosave c t s) = session_ok s"
  by (simp add: autosave_def session_ok_def set_saved_rem_def Let_def)

lemma session_ok_complete:
  assumes "session_ok s" "qi s < quizCount s"
  shows "session_ok (complete_question t s)"
  using assms
  by (simp add: complete_question_def finish_question_def begin_question_def autosave_def
      evaluate_def set_saved_rem_def say_def Let_def session_ok_def MAX_OPTIONS_def)

lemma session_ok_tick_step:
  assumes "session_ok s"
  shows "session_ok (tick_step rnd s t)"
proof (cases "qi s < quizCount s")
  case False
  then show ?thesis using assms by (simp add: tick_step_def)
next
  case True
  note P = session_ok_poll [OF assms, of rnd t]
  note F = poll_file_frame [of rnd s t]
  show ?thesis
  proof (cases "poll rnd s t")
    case (Continue s1)
    then show ?thesis using P True by (simp add: tick_step_def)
  next
    case (Redraw s1)
    then show ?thesis using P True by (simp add: tick_step_def session_ok_autosave)
  next
    case (Completed oc s1)
    then have "session_ok s1" "qi s1 < quizCount s1" using P F True by simp_all
    then show ?thesis using Completed True by (simp add: tick_step_def session_ok_complete)
  qed
qed

lemma session_ok_run: "session_ok s \<Longrightarrow> session_ok (run rnd s ts)"
  by (induction ts arbitrary: s) (simp_all add: run_def session_ok_tick_step)

lemma session_ok_init: "session_ok (startQuiz_init rnd bank nm diff tc t0 f)"
proof -
  obtain qs n p where sel: "select_questions rnd bank diff = ((qs, n), p)"
    by (metis surj_pair)
  have t: "list_all (\<lambda>q. True) bank" by (simp add: list_all_iff)
  have r: "list_all (\<lambda>q. 0 \<le> correctIndex q \<and> correctIndex q < 4) qs"
    by (rule select_questions_all(1) [OF t _ sel]) (rule shuffleOptions_range)
  note C = select_questions_count(1,2) [OF sel]
  show ?thesis
    using r C
    by (simp add: startQuiz_init_def sel begin_question_def session_ok_def Let_def
        MAX_QUIZ_QUESTIONS_def MAX_OPTIONS_def)
qed

lemma session_ok_current:
  assumes "session_ok s" "qi s < quizCount s"
  shows "qCount (result s) < length (answers (result s))"
    "0 \<le> correctIndex (curq s)" "correctIndex (curq s) < 4" "2 \<le> length (visibleOptions s)"
    "qi s < length (quizQuestions s)"
  using assms
  by (simp_all add: session_ok_def MAX_QUIZ_QUESTIONS_def MAX_OPTIONS_def curq_def list_all_length)

lemma tick_step_playerName:
  "playerName (result (tick_step rnd s t)) = playerName (result s)"
proof (cases "qi s < quizCount s")
  case False
  then show ?thesis by (simp add: tick_step_def)
next
  case True
  note F = poll_file_frame [of rnd s t]
  show ?thesis
  proof (cases "poll rnd s t")
    case (Continue s1)
    then show ?thesis using F True by (simp add: tick_step_def)
  next
    case (Redraw s1)
    then show ?thesis using F True by (simp add: tick_step_def autosave_snapshot(4))
  next
    case (Completed oc s1)
    then show ?thesis using F True by (simp add: tick_step_def complete_question_snapshot(5))
  qed
qed

lemma run_playerName: "playerName (result (run rnd s ts)) = playerName (result s)"
  by (induction ts arbitrary: s) (simp_all add: run_def tick_step_playerName)

section \<open>The snapshot on disk during a session\<close>

lemma snapshot_after_completion:
  assumes "qi s < quizCount s" and "saveFile s \<noteq> Unavailable"
    and "CHR 0x0A \<notin> set (playerName (result s))" and "outcome_of (poll rnd s t) \<noteq> None"
  shows "\<exists>r. loadProgress (saveFile (tick_step rnd s t)) = Some r \<and>
           remainingSecondsForCurrent r = 0 \<and> res_score r = score (tick_step rnd s t) \<and>
           playerName r = playerName (result s)"
proof -
  from completing_tick(1) [OF assms(1,4)] obtain r0 where
    r0: "saveFile (tick_step rnd s t) = saveProgress (saveFile s) r0"
        "remainingSecondsForCurrent r0 = 0" "res_score r0 = score (tick_step rnd s t)"
        "playerName r0 = playerName (result s)" by blast
  have "\<exists>r'. loadProgress (saveProgress (saveFile s) r0) = Some r' \<and> playerName r' = playerName r0 \<and>
           res_score r' = res_score r0 \<and> correct r' = correct r0 \<and> wrong r' = wrong r0 \<and>
           timestamp r' = timestamp r0 \<and>
           remainingSecondsForCurrent r' = max 0 (remainingSecondsForCurrent r0)"
    by (rule load_save) (use assms(2,3) r0 in simp_all)
  then show ?thesis using r0 by auto
qed

lemma snapshot_after_redraw:
  assumes "qi s < quizCount s" and "saveFile s \<noteq> Unavailable"
    and "CHR 0x0A \<notin> set (playerName (result s))" and "poll rnd s t = Redraw s1"
    and "max 0 (endTime s1 - t_rem t) \<le> 2 ^ 31 - 1"
  shows "\<exists>r. loadProgress (saveFile (tick_step rnd s t)) = Some r \<and>
           remainingSecondsForCurrent r = max 0 (endTime s1 - t_rem t) \<and> res_score r = score s"
proof -
  have s1: "s1 = state_of (poll rnd s t)" using assms(4) by simp
  note F = poll_file_frame [of rnd s t, folded s1]
  have sc: "score s1 = score s" using poll_Redraw_board [OF assms(4)] by (simp add: board_def)
  note ts = tick_step_Redraw [OF assms(1,4)]
  note A = autosave_snapshot [of t s1]
  have "\<exists>r'. loadProgress (saveProgress (saveFile s1) (result (autosave False t s1))) = Some r' \<and>
           playerName r' = playerName (result (autosave False t s1)) \<and>
           res_score r' = res_score (result (autosave False t s1)) \<and>
           correct r' = correct (result (autosave False t s1)) \<and>
           wrong r' = wrong (result (autosave False t s1)) \<and>
           timestamp r' = timestamp (result (autosave False t s1)) \<and>
           remainingSecondsForCurrent r' = max 0 (remainingSecondsForCurrent (result (autosave False t s1)))"
    by (rule load_save) (use assms(2,3,5) F A in simp_all)
  then show ?thesis using A sc by (auto simp: ts)
qed

lemma press_answer: "outcome_of (poll rnd s (press (CHR ''1'') c now)) \<noteq> None"
  by (simp add: poll_answer_key press_def)

lemma press_idle:
  "now < endTime s \<Longrightarrow> poll rnd s (press (CHR 0x00) c now) = Continue s"
  by (simp add: poll_def check_timeout_def press_def)

lemma press_cancel:
  "poll rnd s (press (CHR ''L'') 0 now) =
     Redraw (say ''Lifeline cancelled. Resuming timer.''
       (set_saved_rem (max 0 (endTime s - now)) (s\<lparr>remainingSeconds := max 0 (endTime s - now)\<rparr>)))"
  by (simp add: poll_def lifeline_menu_def press_def Let_def)

lemma crash_state_facts:
  "qi crash_state = 4" "endTime crash_state = 1011"
  "\<exists>r. loadProgress (saveFile crash_state) = Some r \<and> remainingSecondsForCurrent r = 0"
proof -
  let ?a = "press (CHR ''1'') 0 1001"
  let ?s1 = "tick_step (\<lambda>n. n) easy_session ?a"
  let ?s2 = "tick_step (\<lambda>n. n) ?s1 ?a"
  let ?s3 = "tick_step (\<lambda>n. n) ?s2 ?a"
  let ?s4 = "tick_step (\<lambda>n. n) ?s3 ?a"
  have q0: "qi easy_session < quizCount easy_session"
    by (simp add: easy_session_fresh(2) easy_session_questions(3))
  note T1 = completing_tick [OF q0 press_answer [where rnd = "\<lambda>n. n" and c = 0 and now = 1001]]
  have q1: "qi ?s1 < quizCount ?s1"
    by (simp add: T1(3,4) easy_session_fresh(2) easy_session_questions(3))
  note T2 = completing_tick [OF q1 press_answer [where rnd = "\<lambda>n. n" and c = 0 and now = 1001]]
  have q2: "qi ?s2 < quizCount ?s2"
    by (simp add: T2(3,4) T1(3,4) easy_session_fresh(2) easy_session_questions(3))
  note T3 = completing_tick [OF q2 press_answer [where rnd = "\<lambda>n. n" and c = 0 and now = 1001]]
  have q3: "qi ?s3 < quizCount ?s3"
    by (simp add: T3(3,4) T2(3,4) T1(3,4) easy_session_fresh(2) easy_session_questions(3))
  note T4 = completing_tick [OF q3 press_answer [where rnd = "\<lambda>n. n" and c = 0 and now = 1001]]
  have qi4: "qi ?s4 = 4" "quizCount ?s4 = 10"
    by (simp_all add: T4(3,4) T3(3,4) T2(3,4) T1(3,4) easy_session_fresh(2) easy_session_questions(3))
  have "qi ?s3 + 1 < quizCount ?s3"
    by (simp add: T3(3,4) T2(3,4) T1(3,4) easy_session_fresh(2) easy_session_questions(3))
  then have e4: "endTime ?s4 = 1011" using T4(5) by (simp add: press_def)
  have f3: "saveFile ?s3 \<noteq> Unavailable"
    using T1(1) T2(1) T3(1) by (auto simp: easy_session_fresh(11) saveProgress_def split: disk_file.splits)
  have n3: "CHR 0x0A \<notin> set (playerName (result ?s3))"
    by (simp add: T3(2) T2(2) T1(2) easy_session_fresh(12))
  have l4: "\<exists>r. loadProgress (saveFile ?s4) = Some r \<and> remainingSecondsForCurrent r = 0"
    using snapshot_after_completion [OF q3 f3 n3 press_answer [where rnd = "\<lambda>n. n" and c = 0 and now = 1001]] by blast
  have "poll (\<lambda>n. n) ?s4 (press (CHR 0x00) 0 1005) = Continue ?s4"
    by (rule press_idle) (simp add: e4)
  then have "tick_step (\<lambda>n. n) ?s4 (press (CHR 0x00) 0 1005) = ?s4"
    by (rule tick_step_Continue [rotated]) (simp add: qi4)
  then have c: "crash_state = ?s4" by (simp add: crash_state_def run_def)
  show "qi crash_state = 4" "endTime crash_state = 1011"
    "\<exists>r. loadProgress (saveFile crash_state) = Some r \<and> remainingSecondsForCurrent r = 0"
    using qi4 e4 l4 by (simp_all add: c)
qed

lemma demo_save_loaded:
  "loadProgress demo_save \<noteq> None"
  "playerName (the (loadProgress demo_save)) = ''Ann''"
  "res_score (the (loadProgress demo_save)) = 25"
  "remainingSecondsForCurrent (the (loadProgress demo_save)) = 6"
  "qCount (the (loadProgress demo_save)) = 3"
  "show_int 25 = ''25''" "show_int 6 = ''6''"
  by code_simp+

section \<open>Scoring\<close>

text \<open>
  The claims about a pass are stated for a state in which a question is open
  (\<open>qi s < quizCount s\<close>) and the slot of its answer lies within the array; every state
  of a session has this shape (\<open>session_ok_init\<close>, \<open>session_ok_run\<close>,
  \<open>session_ok_current\<close>).
\<close>

text \<open>
  C1. A pass that answers the current question correctly adds 10, 15 or 20 points for
  difficulty 1, 2 or 3 (the source gives 20 for every difficulty other than 1 and 2),
  adds 5 more when the streak reaches exactly 3 and 15 more when it reaches exactly 5, and
  increments \<open>correctCount\<close> and \<open>streak\<close>, leaving \<open>wrongCount\<close>. Hence a session on a
  bank of at least ten questions, all easy, whose ten questions are answered correctly one
  after the other ends with score 120, ten correct and no wrong answers, and 120 is the
  score shown and written to the high-score log.
\<close>

theorem C1_correct_answer_scoring:
  "(qi s < quizCount s \<and> qCount (result s) < length (answers (result s)) \<and>
    answers_correctly t (curq s) \<longrightarrow>
      score (tick_step rnd s t) =
        score s + (if difficulty (curq s) = 1 then 10 else if difficulty (curq s) = 2 then 15 else 20)
                + (if streak s + 1 = 3 then 5 else if streak s + 1 = 5 then 15 else 0) \<and>
      correctCount (tick_step rnd s t) = correctCount s + 1 \<and>
      streak (tick_step rnd s t) = streak s + 1 \<and>
      wrongCount (tick_step rnd s t) = wrongCount s) \<and>
   (list_all (\<lambda>q. difficulty q = 1) bank \<and> 10 \<le> length bank \<and>
    list_all2 answers_correctly ts (quizQuestions (startQuiz_init rnd bank nm 1 tc t0 f)) \<longrightarrow>
      score (run rnd (startQuiz_init rnd bank nm 1 tc t0 f) ts) = 120 \<and>
      correctCount (run rnd (startQuiz_init rnd bank nm 1 tc t0 f) ts) = 10 \<and>
      wrongCount (run rnd (startQuiz_init rnd bank nm 1 tc t0 f) ts) = 0 \<and>
      qi (run rnd (startQuiz_init rnd bank nm 1 tc t0 f) ts) = 10 \<and>
      score (fst (finish_quiz now hs (run rnd (startQuiz_init rnd bank nm 1 tc t0 f) ts))) = 120 \<and>
      snd (finish_quiz now hs (run rnd (startQuiz_init rnd bank nm 1 tc t0 f) ts))
        = writeHighScore hs \<lparr>name = (if nm = [] then ''Player'' else nm), entry_score = 120,
                              datetime = now\<rparr>)"
proof (intro conjI impI)
  assume a: "qi s < quizCount s \<and> qCount (result s) < length (answers (result s)) \<and>
    answers_correctly t (curq s)"
  then have "board (tick_step rnd s t) =
     (score s + (if difficulty (curq s) = 1 then 10 else if difficulty (curq s) = 2 then 15 else 20)
        + (if streak s + 1 = 3 then 5 else if streak s + 1 = 5 then 15 else 0),
      correctCount s + 1, wrongCount s, streak s + 1)"
    by (intro correct_tick(1)) simp_all
  then show "score (tick_step rnd s t) =
        score s + (if difficulty (curq s) = 1 then 10 else if difficulty (curq s) = 2 then 15 else 20)
                + (if streak s + 1 = 3 then 5 else if streak s + 1 = 5 then 15 else 0)"
    "correctCount (tick_step rnd s t) = correctCount s + 1"
    "streak (tick_step rnd s t) = streak s + 1"
    "wrongCount (tick_step rnd s t) = wrongCount s"
    by (simp_all add: board_def)
next
  let ?s0 = "startQuiz_init rnd bank nm 1 tc t0 f"
  assume a: "list_all (\<lambda>q. difficulty q = 1) bank \<and> 10 \<le> length bank \<and>
    list_all2 answers_correctly ts (quizQuestions ?s0)"
  obtain qs n p where sel: "select_questions rnd bank 1 = ((qs, n), p)"
    by (metis surj_pair)
  have Q: "\<And>q p. difficulty q = 1 \<Longrightarrow> difficulty (fst (shuffleOptions rnd p q)) = 1"
    by (simp add: shuffleOptions_keeps)
  have e: "list_all (\<lambda>q. difficulty q = 1) bank" using a by simp
  have S1: "list_all (\<lambda>q. difficulty q = 1) qs"
    by (rule select_questions_all(1) [OF e _ sel]) (rule Q)
  note S = select_questions_count [OF sel]
  note F = startQuiz_init_fresh [OF sel, of nm tc t0 f]
  have n: "n = 10" using S(3) [OF e] a by simp
  have len: "length ts = 10" using a F(5) S(1) n by (auto dest: list_all2_lengthD)
  have "board (run rnd ?s0 ts) =
     (score ?s0 + 10 * int (length ts) + streak_bonus (streak ?s0) (length ts),
      correctCount ?s0 + int (length ts), wrongCount ?s0, streak ?s0 + int (length ts)) \<and>
     qi (run rnd ?s0 ts) = qi ?s0 + length ts"
    by (rule correct_run) (use a F S S1 n len in simp_all)
  moreover have "score ?s0 = 0" "correctCount ?s0 = 0" "wrongCount ?s0 = 0" "streak ?s0 = 0"
    using F(1) by (simp_all add: board_def)
  ultimately show r: "score (run rnd ?s0 ts) = 120" "correctCount (run rnd ?s0 ts) = 10"
    "wrongCount (run rnd ?s0 ts) = 0" "qi (run rnd ?s0 ts) = 10"
    using len F(2) by (simp_all add: board_def streak_bonus_def)
  have nm: "playerName (result (run rnd ?s0 ts)) = (if nm = [] then ''Player'' else nm)"
    by (simp add: run_playerName F(11))
  show "score (fst (finish_quiz now hs (run rnd ?s0 ts))) = 120"
    "snd (finish_quiz now hs (run rnd ?s0 ts))
        = writeHighScore hs \<lparr>name = (if nm = [] then ''Player'' else nm), entry_score = 120,
                              datetime = now\<rparr>"
    using r(1) nm by (simp_all add: finish_quiz_def Let_def)
qed

theorem C1_correct_answer_scoring_witness:
  "score (tick_step (\<lambda>n. n) easy_session (press (answer_key (curq easy_session)) 0 1001)) = 10 \<and>
   correctCount (tick_step (\<lambda>n. n) easy_session (press (answer_key (curq easy_session)) 0 1001)) = 1 \<and>
   streak (tick_step (\<lambda>n. n) easy_session (press (answer_key (curq easy_session)) 0 1001)) = 1 \<and>
   wrongCount (tick_step (\<lambda>n. n) easy_session (press (answer_key (curq easy_session)) 0 1001)) = 0 \<and>
   score (run (\<lambda>n. n) easy_session
            (map (\<lambda>q. press (answer_key q) 0 1001) (quizQuestions easy_session))) = 120 \<and>
   correctCount (run (\<lambda>n. n) easy_session
            (map (\<lambda>q. press (answer_key q) 0 1001) (quizQuestions easy_session))) = 10 \<and>
   wrongCount (run (\<lambda>n. n) easy_session
            (map (\<lambda>q. press (answer_key q) 0 1001) (quizQuestions easy_session))) = 0 \<and>
   score (fst (finish_quiz ''Fri Oct 30 12:00:00 2026'' Absent (run (\<lambda>n. n) easy_session
            (map (\<lambda>q. press (answer_key q) 0 1001) (quizQuestions easy_session))))) = 120"
proof -
  let ?t = "press (answer_key (curq easy_session)) 0 1001"
  let ?ts = "map (\<lambda>q. press (answer_key q) 0 1001) (quizQuestions easy_session)"
  have h1: "qi easy_session < quizCount easy_session \<and>
        qCount (result easy_session) < length (answers (result easy_session)) \<and>
        answers_correctly ?t (curq easy_session)"
    using easy_session_fresh easy_session_questions(3) easy_session_curq
    by (simp add: answers_correctly_answer_key)
  have h2: "list_all (\<lambda>q. difficulty q = 1) easy_bank \<and> 10 \<le> length easy_bank \<and>
        list_all2 answers_correctly ?ts (quizQuestions easy_session)"
    using easy_session_questions(1)
    by (auto simp: easy_bank_def mkq_def list_all2_map1 list_all_iff
        intro!: list_all2_same [THEN iffD2] answers_correctly_answer_key)
  have b: "score easy_session = 0" "correctCount easy_session = 0" "wrongCount easy_session = 0"
    "streak easy_session = 0"
    using easy_session_fresh(1) by (simp_all add: board_def)
  show ?thesis
    using C1_correct_answer_scoring [of easy_session ?t "\<lambda>n. n" easy_bank ?ts "''Ann''" 1000 1000 Absent
        "''Fri Oct 30 12:00:00 2026''" Absent]
      h1 h2 b easy_session_curq(1)
    by (simp add: easy_session_def [symmetric])
qed

text \<open>
  C2. A pass that completes the question by the timeout or by a wrong answer takes 2, 3
  or 5 points for difficulty 1, 2 or 3 (5 for every difficulty other than 1 and 2),
  increments \<open>wrongCount\<close> and resets the streak; a pass that completes it by a skip, and
  a pass that does not complete it, leave score, tallies and streak as they are. So the
  deduction is made in the completing pass only, once for the question.
\<close>

theorem C2_penalty_once_and_free_skip:
  assumes "qi s < quizCount s" and "qCount (result s) < length (answers (result s))"
  shows
  "(outcome_of (poll rnd s t) = Some TimedOut \<or>
    (outcome_of (poll rnd s t) = Some (Answered k) \<and> k - 1 \<noteq> correctIndex (curq s)) \<longrightarrow>
      score (tick_step rnd s t) =
        score s - (if difficulty (curq s) = 1 then 2 else if difficulty (curq s) = 2 then 3 else 5) \<and>
      wrongCount (tick_step rnd s t) = wrongCount s + 1 \<and>
      streak (tick_step rnd s t) = 0 \<and>
      correctCount (tick_step rnd s t) = correctCount s) \<and>
   (outcome_of (poll rnd s t) = Some Skipped \<or> outcome_of (poll rnd s t) = None \<longrightarrow>
      score (tick_step rnd s t) = score s \<and>
      correctCount (tick_step rnd s t) = correctCount s \<and>
      wrongCount (tick_step rnd s t) = wrongCount s \<and>
      streak (tick_step rnd s t) = streak s)"
proof (intro conjI impI)
  assume "outcome_of (poll rnd s t) = Some TimedOut \<or>
    (outcome_of (poll rnd s t) = Some (Answered k) \<and> k - 1 \<noteq> correctIndex (curq s))"
  from wrong_tick [OF assms this]
  show "score (tick_step rnd s t) =
        score s - (if difficulty (curq s) = 1 then 2 else if difficulty (curq s) = 2 then 3 else 5)"
    "wrongCount (tick_step rnd s t) = wrongCount s + 1"
    "streak (tick_step rnd s t) = 0"
    "correctCount (tick_step rnd s t) = correctCount s"
    by (simp_all add: board_def penalty_def)
next
  assume "outcome_of (poll rnd s t) = Some Skipped \<or> outcome_of (poll rnd s t) = None"
  from neutral_tick [OF assms this]
  show "score (tick_step rnd s t) = score s"
    "correctCount (tick_step rnd s t) = correctCount s"
    "wrongCount (tick_step rnd s t) = wrongCount s"
    "streak (tick_step rnd s t) = streak s"
    by (simp_all add: board_def)
qed

theorem C2_penalty_once_and_free_skip_witness:
  "score (tick_step (\<lambda>n. n) easy_session (press (CHR 0x00) 0 1010)) = - 2 \<and>
   wrongCount (tick_step (\<lambda>n. n) easy_session (press (CHR 0x00) 0 1010)) = 1 \<and>
   streak (tick_step (\<lambda>n. n) easy_session (press (CHR 0x00) 0 1010)) = 0 \<and>
   score (tick_step (\<lambda>n. n) easy_session (press (CHR ''S'') 0 1004)) = 0 \<and>
   wrongCount (tick_step (\<lambda>n. n) easy_session (press (CHR ''S'') 0 1004)) = 0 \<and>
   score (tick_step (\<lambda>n. n) easy_session (press (CHR 0x00) 0 1004)) = 0 \<and>
   wrongCount (tick_step (\<lambda>n. n) easy_session (press (CHR 0x00) 0 1004)) = 0 \<and>
   score (tick_step (\<lambda>n. n) easy_session
            (press (if correctIndex (curq easy_session) = 0 then CHR ''2'' else CHR ''1'') 0 1004)) = - 2 \<and>
   wrongCount (tick_step (\<lambda>n. n) easy_session
            (press (if correctIndex (curq easy_session) = 0 then CHR ''2'' else CHR ''1'') 0 1004)) = 1"
proof -
  let ?w = "press (if correctIndex (curq easy_session) = 0 then CHR ''2'' else CHR ''1'') 0 1004"
  let ?k = "if correctIndex (curq easy_session) = 0 then 2 else 1 :: int"
  have o4: "outcome_of (poll (\<lambda>n. n) easy_session ?w) = Some (Answered ?k) \<and>
            ?k - 1 \<noteq> correctIndex (curq easy_session)"
    by (simp add: poll_def press_def Let_def)
  have h: "qi easy_session < quizCount easy_session"
    "qCount (result easy_session) < length (answers (result easy_session))"
    using easy_session_fresh easy_session_questions(3) by simp_all
  have b: "score easy_session = 0" "correctCount easy_session = 0" "wrongCount easy_session = 0"
    "streak easy_session = 0"
    using easy_session_fresh(1) by (simp_all add: board_def)
  have o1: "outcome_of (poll (\<lambda>n. n) easy_session (press (CHR 0x00) 0 1010)) = Some TimedOut"
    by (simp add: poll_def check_timeout_def press_def easy_session_fresh(5) Let_def)
  have o2: "outcome_of (poll (\<lambda>n. n) easy_session (press (CHR ''S'') 0 1004)) = Some Skipped"
    by (simp add: poll_def press_def easy_session_fresh(6) Let_def)
  have o3: "outcome_of (poll (\<lambda>n. n) easy_session (press (CHR 0x00) 0 1004)) = None"
    by (simp add: poll_def check_timeout_def press_def easy_session_fresh(5) Let_def)
  show ?thesis
    using C2_penalty_once_and_free_skip [OF h, of "\<lambda>n. n" "press (CHR 0x00) 0 1010" 0]
      C2_penalty_once_and_free_skip [OF h, of "\<lambda>n. n" "press (CHR ''S'') 0 1004" 0]
      C2_penalty_once_and_free_skip [OF h, of "\<lambda>n. n" "press (CHR 0x00) 0 1004" 0]
      C2_penalty_once_and_free_skip [OF h, of "\<lambda>n. n" ?w ?k]
      o1 o2 o3 o4 b easy_session_curq(1)
    by simp
qed

section \<open>Lifelines and the timer\<close>

text \<open>
  C3. The claim asks that a Replace that finds no question with another text be refunded.
  The source marks the lifeline used before it searches and never sets it back: on a
  bank with the single question Q0, Replace prints ``No replacement found.'' and is gone,
  and a second attempt prints ``Replace already used.''. (The ExtraTime branch, next to
  it, tests for its failure before it marks the lifeline used.)
\<close>

theorem C3_replace_not_refunded:
  "lif_replace single_session \<and>
   list_all (\<lambda>b. qtext b = qtext (curq single_session)) (allQ single_session) \<and>
   \<not> lif_replace (tick_step (\<lambda>n. n) single_session (press (CHR ''L'') 3 1004)) \<and>
   out (tick_step (\<lambda>n. n) single_session (press (CHR ''L'') 3 1004)) = [''No replacement found.''] \<and>
   out (run (\<lambda>n. n) single_session [press (CHR ''L'') 3 1004, press (CHR ''L'') 3 1005])
     = [''No replacement found.'', ''Replace already used.'']"
proof -
  let ?t = "press (CHR ''L'') 3 1004"
  let ?s1 = "tick_step (\<lambda>n. n) single_session ?t"
  have k: "key ?t = CHR ''L'' \<or> key ?t = CHR ''l''" "li ?t = 3" by (simp_all add: press_def)
  have a: "list_all (\<lambda>b. qtext b = qtext (curq single_session)) (allQ single_session)"
    by (simp add: single_session_facts single_bank_def mkq_def)
  note R = replace_without_alternative [OF k single_session_facts(1) a, of "\<lambda>n. n"]
  have o0: "out single_session = []"
    by (simp add: single_session_def startQuiz_init_def begin_question_def Let_def split: prod.splits)
  have p: "poll (\<lambda>n. n) single_session ?t = Redraw (state_of (poll (\<lambda>n. n) single_session ?t))"
    using outcome_of_None [OF R(1)] menu_replace [OF k single_session_facts(1), of "\<lambda>n. n"]
    by (auto simp: Let_def)
  have s1: "?s1 = autosave False ?t (state_of (poll (\<lambda>n. n) single_session ?t))"
    by (rule tick_step_Redraw [OF _ p]) (simp add: single_session_facts)
  have l1: "\<not> lif_replace ?s1" using R(2) by (simp add: s1 after_poll_lifelines)
  have o1: "out ?s1 = [''No replacement found.'']"
    using R(3) o0 by (simp add: s1 autosave_def set_saved_rem_def Let_def)
  have q1: "qi ?s1 < quizCount ?s1"
    by (simp add: s1 autosave_def set_saved_rem_def Let_def single_session_facts
        menu_replace [OF k single_session_facts(1)] say_def split: option.splits)
  let ?t2 = "press (CHR ''L'') 3 1005"
  have p2: "poll (\<lambda>n. n) ?s1 ?t2 = Redraw (say ''Replace already used.''
      (set_saved_rem (max 0 (endTime ?s1 - 1005)) (?s1\<lparr>remainingSeconds := max 0 (endTime ?s1 - 1005)\<rparr>)))"
    using l1 by (simp add: poll_def lifeline_menu_def press_def Let_def set_saved_rem_def say_def)
  have "out (tick_step (\<lambda>n. n) ?s1 ?t2) = [''No replacement found.'', ''Replace already used.'']"
    using o1 by (simp add: tick_step_Redraw [OF q1 p2] autosave_def set_saved_rem_def say_def Let_def)
  then show ?thesis using single_session_facts(1) a l1 o1 by (simp add: run_def)
qed

text \<open>
  C5. A pass that finds an answer key \<open>'1'..'4'\<close> completes the question as answered
  with that option recorded, also when every clock reading of the pass is at or past the
  deadline: the remaining seconds are then 0, no time-out penalty is taken and no
  ``Time's up'' notice is printed; when the key is that of the correct option, the
  evaluation that follows counts the answer as correct.
\<close>

theorem C5_key_beats_expiry:
  assumes "CHR ''1'' \<le> key t" and "key t \<le> CHR ''4''"
    and "endTime s \<le> t_key t" and "endTime s \<le> t_check t"
    and "qi s < quizCount s" and "qCount (result s) < length (answers (result s))"
  shows "outcome_of (poll rnd s t) = Some (Answered (of_char (key t) - of_char (CHR ''0''))) \<and>
         outcome_of (poll rnd s t) \<noteq> Some TimedOut \<and>
         answers (result (state_of (poll rnd s t))) ! qCount (result (state_of (poll rnd s t)))
           = of_char (key t) - of_char (CHR ''0'') \<and>
         remainingSeconds (state_of (poll rnd s t)) = 0 \<and>
         score (state_of (poll rnd s t)) = score s \<and>
         wrongCount (state_of (poll rnd s t)) = wrongCount s \<and>
         streak (state_of (poll rnd s t)) = streak s \<and>
         out (state_of (poll rnd s t)) = out s \<and>
         (answers_correctly t (curq s) \<longrightarrow>
            correctCount (tick_step rnd s t) = correctCount s + 1 \<and>
            wrongCount (tick_step rnd s t) = wrongCount s \<and>
            streak (tick_step rnd s t) = streak s + 1)"
proof -
  have "answers_correctly t (curq s) \<longrightarrow>
            correctCount (tick_step rnd s t) = correctCount s + 1 \<and>
            wrongCount (tick_step rnd s t) = wrongCount s \<and>
            streak (tick_step rnd s t) = streak s + 1"
    using correct_tick(1) [OF assms(5,6), of t rnd] by (simp add: board_def)
  then show ?thesis
    using assms by (simp add: poll_answer_key set_saved_rem_def set_answer_def)
qed

theorem C5_key_beats_expiry_witness:
  "outcome_of (poll (\<lambda>n. n) easy_session (press (answer_key (curq easy_session)) 0 1010))
     = Some (Answered (correctIndex (curq easy_session) + 1)) \<and>
   remainingSeconds (state_of (poll (\<lambda>n. n) easy_session (press (answer_key (curq easy_session)) 0 1010))) = 0 \<and>
   wrongCount (state_of (poll (\<lambda>n. n) easy_session (press (answer_key (curq easy_session)) 0 1010))) = 0 \<and>
   correctCount (tick_step (\<lambda>n. n) easy_session (press (answer_key (curq easy_session)) 0 1010)) = 1 \<and>
   wrongCount (tick_step (\<lambda>n. n) easy_session (press (answer_key (curq easy_session)) 0 1010)) = 0"
proof -
  let ?t = "press (answer_key (curq easy_session)) 0 1010"
  have a: "answers_correctly ?t (curq easy_session)"
    by (rule answers_correctly_answer_key) (rule easy_session_curq)+
  then have h: "CHR ''1'' \<le> key ?t" "key ?t \<le> CHR ''4''"
    by (simp_all add: answers_correctly_def)
  have h2: "endTime easy_session \<le> t_key ?t" "endTime easy_session \<le> t_check ?t"
    "qi easy_session < quizCount easy_session"
    "qCount (result easy_session) < length (answers (result easy_session))"
    by (simp_all add: press_def easy_session_fresh easy_session_questions(3))
  have w: "wrongCount easy_session = 0" "correctCount easy_session = 0"
    using easy_session_fresh(1) by (simp_all add: board_def)
  have k: "of_char (key ?t) - of_char (CHR ''0'') = correctIndex (curq easy_session) + 1"
    using a by (simp add: answers_correctly_def)
  show ?thesis
    using C5_key_beats_expiry [OF h h2, of "\<lambda>n. n"] w a unfolding k by simp
qed

text \<open>
  C6. For a question whose original correct index is one of 0..3, the option at the
  correct index after \<open>shuffleOptions\<close> is the option at the original correct index
  before it. Hence every question of a new session shows at its correct index the
  original correct option of the bank question it was copied from, and so does the
  question put in place by the Replace lifeline; a Replace that finds nothing leaves the
  current question as it is.
\<close>

theorem C6_correct_option_follows_shuffle:
  "(0 \<le> originalCorrectIndex q \<and> originalCorrectIndex q < 4 \<longrightarrow>
      0 \<le> correctIndex (fst (shuffleOptions rnd p q)) \<and>
      correctIndex (fst (shuffleOptions rnd p q)) < 4 \<and>
      options (fst (shuffleOptions rnd p q)) ! nat (correctIndex (fst (shuffleOptions rnd p q)))
        = options q ! nat (originalCorrectIndex q)) \<and>
   (list_all (\<lambda>b. 0 \<le> originalCorrectIndex b \<and> originalCorrectIndex b < 4) bank \<longrightarrow>
      list_all (\<lambda>q'. \<exists>b \<in> set bank. qtext q' = qtext b \<and> 0 \<le> correctIndex q' \<and> correctIndex q' < 4 \<and>
                  options q' ! nat (correctIndex q') = options b ! nat (originalCorrectIndex b))
        (quizQuestions (startQuiz_init rnd bank nm diff tc t0 f))) \<and>
   (list_all (\<lambda>b. 0 \<le> originalCorrectIndex b \<and> originalCorrectIndex b < 4) (allQ s) \<and>
    (key t = CHR ''L'' \<or> key t = CHR ''l'') \<and> li t = 3 \<and> lif_replace s \<and>
    qi s < length (quizQuestions s) \<longrightarrow>
      curq (state_of (poll rnd s t)) = curq s \<or>
      (\<exists>b \<in> set (allQ s). qtext b \<noteq> qtext (curq s) \<and>
         qtext (curq (state_of (poll rnd s t))) = qtext b \<and>
         0 \<le> correctIndex (curq (state_of (poll rnd s t))) \<and>
         correctIndex (curq (state_of (poll rnd s t))) < 4 \<and>
         options (curq (state_of (poll rnd s t))) ! nat (correctIndex (curq (state_of (poll rnd s t))))
           = options b ! nat (originalCorrectIndex b)))"
proof (intro conjI impI)
  assume "0 \<le> originalCorrectIndex q \<and> originalCorrectIndex q < 4"
  then show "0 \<le> correctIndex (fst (shuffleOptions rnd p q))"
    "correctIndex (fst (shuffleOptions rnd p q)) < 4"
    "options (fst (shuffleOptions rnd p q)) ! nat (correctIndex (fst (shuffleOptions rnd p q)))
        = options q ! nat (originalCorrectIndex q)"
    using shuffleOptions_correct [of q rnd p] by simp_all
next
  assume a: "list_all (\<lambda>b. 0 \<le> originalCorrectIndex b \<and> originalCorrectIndex b < 4) bank"
  obtain qs n p where sel: "select_questions rnd bank diff = ((qs, n), p)"
    by (metis surj_pair)
  have P: "list_all (\<lambda>b. b \<in> set bank \<and> 0 \<le> originalCorrectIndex b \<and> originalCorrectIndex b < 4) bank"
    using a by (simp add: list_all_iff)
  have "list_all (\<lambda>q'. \<exists>b \<in> set bank. qtext q' = qtext b \<and> 0 \<le> correctIndex q' \<and> correctIndex q' < 4 \<and>
                  options q' ! nat (correctIndex q') = options b ! nat (originalCorrectIndex b)) qs"
    by (rule select_questions_all(1) [OF P _ sel])
      (use shuffleOptions_correct shuffleOptions_keeps in blast)
  then show "list_all (\<lambda>q'. \<exists>b \<in> set bank. qtext q' = qtext b \<and> 0 \<le> correctIndex q' \<and> correctIndex q' < 4 \<and>
                  options q' ! nat (correctIndex q') = options b ! nat (originalCorrectIndex b))
        (quizQuestions (startQuiz_init rnd bank nm diff tc t0 f))"
    by (simp add: startQuiz_init_fresh(5) [OF sel])
next
  assume a: "list_all (\<lambda>b. 0 \<le> originalCorrectIndex b \<and> originalCorrectIndex b < 4) (allQ s) \<and>
    (key t = CHR ''L'' \<or> key t = CHR ''l'') \<and> li t = 3 \<and> lif_replace s \<and>
    qi s < length (quizQuestions s)"
  let ?fp = "replace_search rnd (allQ s) (qtext (curq s)) (length (allQ s)) (rpos s)"
  let ?s' = "state_of (poll rnd s t)"
  have m: "poll rnd s t =
     (let rem = max 0 (endTime s - t_key t);
          s1 = (set_saved_rem rem (s\<lparr>remainingSeconds := rem\<rparr>))\<lparr>lif_replace := False\<rparr>;
          fp = ?fp;
          s2 = (case fst fp of
                  None \<Rightarrow> say ''No replacement found.'' s1
                | Some cand \<Rightarrow>
                    say ''Question replaced. Remaining time preserved.''
                      (s1\<lparr>quizQuestions := (quizQuestions s)[qi s := cand],
                          visibleOptions := [0, 1, 2, 3], visibleCount := 4\<rparr>))
      in Redraw (s2\<lparr>endTime := t_menu t + rem, rpos := snd fp\<rparr>))"
    by (rule menu_replace) (use a in simp_all)
  show "curq ?s' = curq s \<or>
      (\<exists>b \<in> set (allQ s). qtext b \<noteq> qtext (curq s) \<and> qtext (curq ?s') = qtext b \<and>
         0 \<le> correctIndex (curq ?s') \<and> correctIndex (curq ?s') < 4 \<and>
         options (curq ?s') ! nat (correctIndex (curq ?s')) = options b ! nat (originalCorrectIndex b))"
  proof (cases "fst ?fp")
    case None
    then have "curq ?s' = curq s"
      by (simp add: m Let_def say_def set_saved_rem_def curq_def)
    then show ?thesis ..
  next
    case (Some cand)
    then have c: "curq ?s' = cand" using a
      by (simp add: m Let_def say_def set_saved_rem_def curq_def)
    have fp: "?fp = (Some cand, snd ?fp)" using Some by (metis prod.collapse)
    have ne: "allQ s \<noteq> []" using fp by (cases "allQ s") auto
    from replace_search_Some [OF fp ne] obtain r p0 where
      r: "r < length (allQ s)" "qtext (allQ s ! r) \<noteq> qtext (curq s)"
         "cand = fst (shuffleOptions rnd p0 (allQ s ! r))" by blast
    have o: "0 \<le> originalCorrectIndex (allQ s ! r) \<and> originalCorrectIndex (allQ s ! r) < 4"
      using a r(1) by (simp add: list_all_length)
    have b1: "allQ s ! r \<in> set (allQ s)" using r(1) by simp
    have b2: "qtext (curq ?s') = qtext (allQ s ! r)"
      unfolding c r(3) by (simp add: shuffleOptions_keeps)
    have b3: "0 \<le> correctIndex (curq ?s') \<and> correctIndex (curq ?s') < 4 \<and>
         options (curq ?s') ! nat (correctIndex (curq ?s'))
           = options (allQ s ! r) ! nat (originalCorrectIndex (allQ s ! r))"
      unfolding c r(3) by (rule shuffleOptions_correct) (use o in simp_all)
    show ?thesis
      by (rule disjI2, rule bexI [OF _ b1]) (use r(2) b2 b3 in simp)
  qed
qed

theorem C6_correct_option_follows_shuffle_witness:
  "options (fst (shuffleOptions (\<lambda>n. n) 0 (mkq ''Q0'' 2 1)))
     ! nat (correctIndex (fst (shuffleOptions (\<lambda>n. n) 0 (mkq ''Q0'' 2 1)))) = ''c'' \<and>
   list_all (\<lambda>q'. \<exists>b \<in> set easy_bank. qtext q' = qtext b \<and> 0 \<le> correctIndex q' \<and> correctIndex q' < 4 \<and>
                  options q' ! nat (correctIndex q') = options b ! nat (originalCorrectIndex b))
     (quizQuestions easy_session) \<and>
   (curq (state_of (poll (\<lambda>n. n) easy_session (press (CHR ''L'') 3 1004))) = curq easy_session \<or>
    (\<exists>b \<in> set easy_bank. qtext b \<noteq> qtext (curq easy_session) \<and>
       qtext (curq (state_of (poll (\<lambda>n. n) easy_session (press (CHR ''L'') 3 1004)))) = qtext b \<and>
       0 \<le> correctIndex (curq (state_of (poll (\<lambda>n. n) easy_session (press (CHR ''L'') 3 1004)))) \<and>
       correctIndex (curq (state_of (poll (\<lambda>n. n) easy_session (press (CHR ''L'') 3 1004)))) < 4 \<and>
       options (curq (state_of (poll (\<lambda>n. n) easy_session (press (CHR ''L'') 3 1004))))
         ! nat (correctIndex (curq (state_of (poll (\<lambda>n. n) easy_session (press (CHR ''L'') 3 1004)))))
         = options b ! nat (originalCorrectIndex b)))"
proof -
  have h1: "0 \<le> originalCorrectIndex (mkq ''Q0'' 2 1) \<and> originalCorrectIndex (mkq ''Q0'' 2 1) < 4"
    by (simp add: mkq_def)
  have h2: "list_all (\<lambda>b. 0 \<le> originalCorrectIndex b \<and> originalCorrectIndex b < 4) easy_bank"
    by (simp add: easy_bank_def mkq_def)
  have h3: "list_all (\<lambda>b. 0 \<le> originalCorrectIndex b \<and> originalCorrectIndex b < 4) (allQ easy_session) \<and>
    (key (press (CHR ''L'') 3 1004) = CHR ''L'' \<or> key (press (CHR ''L'') 3 1004) = CHR ''l'') \<and>
    li (press (CHR ''L'') 3 1004) = 3 \<and> lif_replace easy_session \<and>
    qi easy_session < length (quizQuestions easy_session)"
    using h2 by (simp add: easy_session_fresh easy_session_questions(2) press_def)
  have o: "options (mkq ''Q0'' 2 1) ! nat (originalCorrectIndex (mkq ''Q0'' 2 1)) = ''c''"
    by (simp add: mkq_def numeral_2_eq_2)
  show ?thesis
    using C6_correct_option_follows_shuffle [of "mkq ''Q0'' 2 1" "\<lambda>n. n" 0 easy_bank "''Ann''" 1
        1000 1000 Absent easy_session "press (CHR ''L'') 3 1004"] h1 h2 h3 o
    by (simp add: easy_session_def [symmetric] easy_session_fresh(10))
qed

text \<open>
  C7. For a question whose correct index is one of 0..3, \<open>apply5050\<close> leaves exactly
  two options shown: the correct one and one wrong one, stored in ascending order. The
  50/50 choice of the lifeline menu puts this into the session for the current question.
  (Every question of a session has its correct index in 0..3, whatever the bank holds:
  \<open>shuffleOptions_range\<close>, \<open>session_ok_current\<close>.)
\<close>

theorem C7_fifty_fifty_two_visible:
  "(0 \<le> correctIndex q \<and> correctIndex q < 4 \<and> 2 \<le> length vis \<longrightarrow>
      (case apply5050 rnd p q vis of
         ((v, c), p') \<Rightarrow>
           c = 2 \<and> shown v c (correctIndex q) \<and>
           (\<exists>w. w \<noteq> correctIndex q \<and> 0 \<le> w \<and> w < 4 \<and> {i. shown v c i} = {correctIndex q, w}) \<and>
           v ! 0 < v ! 1)) \<and>
   ((key t = CHR ''L'' \<or> key t = CHR ''l'') \<and> li t = 1 \<and> lif_5050 s \<and>
    0 \<le> correctIndex (curq s) \<and> correctIndex (curq s) < 4 \<and> 2 \<le> length (visibleOptions s) \<longrightarrow>
      outcome_of (poll rnd s t) = None \<and>
      visibleCount (state_of (poll rnd s t)) = 2 \<and>
      (\<exists>w. w \<noteq> correctIndex (curq s) \<and> 0 \<le> w \<and> w < 4 \<and>
           {i. shown (visibleOptions (state_of (poll rnd s t))) (visibleCount (state_of (poll rnd s t))) i}
             = {correctIndex (curq s), w}) \<and>
      visibleOptions (state_of (poll rnd s t)) ! 0 < visibleOptions (state_of (poll rnd s t)) ! 1 \<and>
      curq (state_of (poll rnd s t)) = curq s \<and>
      \<not> lif_5050 (state_of (poll rnd s t)))"
proof (intro conjI impI)
  assume a: "0 \<le> correctIndex q \<and> correctIndex q < 4 \<and> 2 \<le> length vis"
  obtain v c p' where ap: "apply5050 rnd p q vis = ((v, c), p')" by (metis surj_pair)
  have two: "c = 2 \<and> length v = length vis \<and>
         (\<exists>w. w \<noteq> correctIndex q \<and> 0 \<le> w \<and> w < 4 \<and> {i. shown v c i} = {correctIndex q, w}) \<and>
         v ! 0 < v ! 1"
    by (rule apply5050_two [OF _ _ _ ap]) (use a in simp_all)
  then have "shown v c (correctIndex q)" by blast
  with two show "case apply5050 rnd p q vis of
         ((v, c), p') \<Rightarrow>
           c = 2 \<and> shown v c (correctIndex q) \<and>
           (\<exists>w. w \<noteq> correctIndex q \<and> 0 \<le> w \<and> w < 4 \<and> {i. shown v c i} = {correctIndex q, w}) \<and>
           v ! 0 < v ! 1"
    unfolding ap prod.case by blast
next
  assume a: "(key t = CHR ''L'' \<or> key t = CHR ''l'') \<and> li t = 1 \<and> lif_5050 s \<and>
    0 \<le> correctIndex (curq s) \<and> correctIndex (curq s) < 4 \<and> 2 \<le> length (visibleOptions s)"
  let ?s' = "state_of (poll rnd s t)"
  obtain v c p' where ap: "apply5050 rnd (rpos s) (curq s) (visibleOptions s) = ((v, c), p')"
    by (metis surj_pair)
  have m: "poll rnd s t = Redraw (say ''50/50 used. Two wrong options removed. Resuming timer.''
                  ((set_saved_rem (max 0 (endTime s - t_key t))
                      (s\<lparr>remainingSeconds := max 0 (endTime s - t_key t)\<rparr>))
                     \<lparr>lif_5050 := False, visibleOptions := v, visibleCount := c, rpos := p'\<rparr>))"
    using menu_5050 [of t s rnd] a by (simp add: Let_def ap)
  have two: "c = 2 \<and> length v = length (visibleOptions s) \<and>
         (\<exists>w. w \<noteq> correctIndex (curq s) \<and> 0 \<le> w \<and> w < 4 \<and> {i. shown v c i} = {correctIndex (curq s), w}) \<and>
         v ! 0 < v ! 1"
    by (rule apply5050_two [OF _ _ _ ap]) (use a in simp_all)
  have s': "visibleOptions ?s' = v" "visibleCount ?s' = c" "curq ?s' = curq s" "\<not> lif_5050 ?s'"
    by (simp_all add: m say_def set_saved_rem_def curq_def)
  show "outcome_of (poll rnd s t) = None" by (simp add: m)
  show "visibleCount ?s' = 2" using two s' by simp
  show "\<exists>w. w \<noteq> correctIndex (curq s) \<and> 0 \<le> w \<and> w < 4 \<and>
           {i. shown (visibleOptions ?s') (visibleCount ?s') i} = {correctIndex (curq s), w}"
    using two unfolding s' by blast
  show "visibleOptions ?s' ! 0 < visibleOptions ?s' ! 1" using two unfolding s' by blast
  show "curq ?s' = curq s" by (rule s')
  show "\<not> lif_5050 ?s'" by (rule s')
qed

theorem C7_fifty_fifty_two_visible_witness:
  "(case apply5050 (\<lambda>n. n) 0 (mkq ''Q0'' 2 1) [0, 1, 2, 3] of
      ((v, c), p') \<Rightarrow>
        c = 2 \<and> shown v c 2 \<and>
        (\<exists>w. w \<noteq> 2 \<and> 0 \<le> w \<and> w < 4 \<and> {i. shown v c i} = {2, w}) \<and> v ! 0 < v ! 1) \<and>
   visibleCount (state_of (poll (\<lambda>n. n) easy_session (press (CHR ''L'') 1 1004))) = 2 \<and>
   visibleOptions (state_of (poll (\<lambda>n. n) easy_session (press (CHR ''L'') 1 1004))) ! 0
     < visibleOptions (state_of (poll (\<lambda>n. n) easy_session (press (CHR ''L'') 1 1004))) ! 1 \<and>
   \<not> lif_5050 (state_of (poll (\<lambda>n. n) easy_session (press (CHR ''L'') 1 1004)))"
proof -
  have v: "visibleOptions easy_session = [0, 1, 2, 3]"
    by (simp add: easy_session_def startQuiz_init_def begin_question_def Let_def split: prod.splits)
  have h1: "0 \<le> correctIndex (mkq ''Q0'' 2 1) \<and> correctIndex (mkq ''Q0'' 2 1) < 4 \<and>
            2 \<le> length [0, 1, 2, 3::int]"
    by (simp add: mkq_def)
  have h2: "(key (press (CHR ''L'') 1 1004) = CHR ''L'' \<or> key (press (CHR ''L'') 1 1004) = CHR ''l'') \<and>
    li (press (CHR ''L'') 1 1004) = 1 \<and> lif_5050 easy_session \<and>
    0 \<le> correctIndex (curq easy_session) \<and> correctIndex (curq easy_session) < 4 \<and>
    2 \<le> length (visibleOptions easy_session)"
    by (simp add: press_def easy_session_fresh easy_session_curq v)
  have c: "correctIndex (mkq ''Q0'' 2 1) = 2" by (simp add: mkq_def)
  show ?thesis
    using C7_fifty_fifty_two_visible [of "mkq ''Q0'' 2 1" "[0, 1, 2, 3]" "\<lambda>n. n" 0
        "press (CHR ''L'') 1 1004" easy_session] h1 h2
    unfolding c by simp
qed

text \<open>
  C8. ExtraTime chosen in the lifeline menu while it is available: when the remaining
  seconds taken on entering the menu are 0 it is refused with a notice and stays
  available; otherwise it is marked used, stays so in every later pass of the session,
  the remaining seconds grow by exactly 10, and the deadline becomes the clock reading
  plus the new remaining seconds.
\<close>

theorem C8_extra_time:
  assumes "key t = CHR ''L'' \<or> key t = CHR ''l''" and "li t = 4" and "lif_extra s"
    and "qi s < quizCount s"
  shows
  "outcome_of (poll rnd s t) = None \<and>
   (max 0 (endTime s - t_key t) = 0 \<longrightarrow>
      lif_extra (state_of (poll rnd s t)) \<and>
      out (state_of (poll rnd s t)) = out s @ [''Cannot use Extra Time: question already expired.''] \<and>
      remainingSeconds (state_of (poll rnd s t)) = 0 \<and>
      endTime (state_of (poll rnd s t)) = endTime s) \<and>
   (max 0 (endTime s - t_key t) \<noteq> 0 \<longrightarrow>
      \<not> lif_extra (state_of (poll rnd s t)) \<and>
      remainingSeconds (state_of (poll rnd s t)) = max 0 (endTime s - t_key t) + 10 \<and>
      endTime (state_of (poll rnd s t)) = t_menu t + remainingSeconds (state_of (poll rnd s t)) \<and>
      (\<forall>ts. \<not> lif_extra (run rnd (tick_step rnd s t) ts)))"
proof -
  note m = menu_extra [OF assms(1-3), of rnd]
  have later: "\<not> lif_extra (run rnd (tick_step rnd s t) ts)"
    if "\<not> lif_extra (state_of (poll rnd s t))" for ts
  proof -
    have "\<not> lif_extra (tick_step rnd s t)"
      using that assms(4)
      by (auto simp: tick_step_def after_poll_lifelines split: flow.splits)
    then show ?thesis using run_lifelines_mono [of rnd "tick_step rnd s t" ts] by blast
  qed
  have n0: "max 0 (endTime s - t_key t) \<noteq> 0 \<Longrightarrow> \<not> lif_extra (state_of (poll rnd s t))"
    by (auto simp: m Let_def say_def set_saved_rem_def)
  show ?thesis
    using later n0 assms(3)
    by (auto simp: m Let_def say_def set_saved_rem_def EXTRA_TIME_AMOUNT_def)
qed

theorem C8_extra_time_witness:
  "lif_extra (state_of (poll (\<lambda>n. n) easy_session (press (CHR ''L'') 4 1010))) \<and>
   remainingSeconds (state_of (poll (\<lambda>n. n) easy_session (press (CHR ''L'') 4 1010))) = 0 \<and>
   \<not> lif_extra (state_of (poll (\<lambda>n. n) easy_session (press (CHR ''L'') 4 1003))) \<and>
   remainingSeconds (state_of (poll (\<lambda>n. n) easy_session (press (CHR ''L'') 4 1003))) = 17 \<and>
   endTime (state_of (poll (\<lambda>n. n) easy_session (press (CHR ''L'') 4 1003))) = 1020 \<and>
   \<not> lif_extra (run (\<lambda>n. n) (tick_step (\<lambda>n. n) easy_session (press (CHR ''L'') 4 1003))
                  [press (CHR ''L'') 4 1005])"
proof -
  have h: "key (press (CHR ''L'') 4 now) = CHR ''L'' \<or> key (press (CHR ''L'') 4 now) = CHR ''l''"
    "li (press (CHR ''L'') 4 now) = 4" for now
    by (simp_all add: press_def)
  have t: "t_key (press (CHR ''L'') 4 now) = now" "t_menu (press (CHR ''L'') 4 now) = now" for now
    by (simp_all add: press_def)
  have q: "qi easy_session < quizCount easy_session"
    by (simp add: easy_session_fresh(2) easy_session_questions(3))
  show ?thesis
    using C8_extra_time [OF h [of 1010] easy_session_fresh(7) q, of "\<lambda>n. n"]
      C8_extra_time [OF h [of 1003] easy_session_fresh(7) q, of "\<lambda>n. n"]
    by (simp add: t easy_session_fresh(5))
qed

section \<open>Files\<close>

text \<open>
  C4 (amended). Writing \<open>N\<close> high-score entries to a new or empty file and reading the
  file back yields the first 50 of them in insertion order, for entries as the program
  makes them (no line end in name and date, a score that is an \<open>int\<close>) whose names hold
  no bar: all \<open>N\<close> entries when \<open>N \<le> 50\<close>. The claim as stated, for every \<open>N\<close> and
  every entry, fails: of 51 entries the reader keeps 50 (it stores while
  \<open>outCount < MAX_QUIZ_QUESTIONS\<close>), and the name \<open>a|b\<close> with score 5 is read back as
  the name \<open>a\<close> with score 0.
\<close>

theorem C4_high_scores_read_back:
  assumes "list_all entry_ok es" and "f = Absent \<or> f = Content []"
  shows "readHighScores (foldl writeHighScore f es) = take 50 es \<and>
         (length es \<le> 50 \<longrightarrow> readHighScores (foldl writeHighScore f es) = es)"
  using read_after_write [OF assms] by (simp add: MAX_QUIZ_QUESTIONS_def)

theorem C4_high_scores_read_back_witness:
  "readHighScores (foldl writeHighScore Absent [ann_entry, ann_entry\<lparr>entry_score := 95\<rparr>])
     = [ann_entry, ann_entry\<lparr>entry_score := 95\<rparr>]"
proof -
  have "list_all entry_ok [ann_entry, ann_entry\<lparr>entry_score := 95\<rparr>]"
    by (simp add: entry_ok_def ann_entry_def)
  from C4_high_scores_read_back [OF this, of Absent] show ?thesis by simp
qed

theorem C4_high_scores_counterexample:
  "readHighScores (foldl writeHighScore Absent (replicate 51 ann_entry)) \<noteq> replicate 51 ann_entry \<and>
   readHighScores (foldl writeHighScore Absent [bar_entry]) \<noteq> [bar_entry]"
proof
  have "list_all entry_ok (replicate 51 ann_entry)"
    by (simp add: entry_ok_def ann_entry_def list_all_iff)
  then have "readHighScores (foldl writeHighScore Absent (replicate 51 ann_entry))
               = take MAX_QUIZ_QUESTIONS (replicate 51 ann_entry)"
    by (rule read_after_write) simp
  then have "length (readHighScores (foldl writeHighScore Absent (replicate 51 ann_entry))) = 50"
    by (simp add: MAX_QUIZ_QUESTIONS_def)
  then show "readHighScores (foldl writeHighScore Absent (replicate 51 ann_entry)) \<noteq> replicate 51 ann_entry"
    by (metis length_replicate numeral_eq_iff semiring_norm(89) semiring_norm(88) semiring_norm(87) num.inject)
  have "readHighScores (foldl writeHighScore Absent [bar_entry])
          = [\<lparr>name = ''a'', entry_score = 0, datetime = ''5|d''\<rparr>]"
    by code_simp
  then show "readHighScores (foldl writeHighScore Absent [bar_entry]) \<noteq> [bar_entry]"
    by (simp add: bar_entry_def)
qed

text \<open>
  C9 (amended). The snapshot on disk is the one written by the last pass that left the
  polling loop; the passes that go on polling write nothing. After the pass that
  completes a question the snapshot reads back with remaining seconds 0 and the score
  reached so far, which Resume prints as ``Score so far''; a pass that leaves the loop
  for the lifeline menu without completing the question writes the seconds left when the
  menu closed, and the same score. So a process that dies in the polling loop of
  question 5 with six seconds left, after question 4 was completed, leaves
  \<open>remainingSecondsForCurrent = 0\<close> on disk, not 6, and the score through question 4.
\<close>

theorem C9_snapshot_is_last_written:
  assumes "qi s < quizCount s" and "saveFile s \<noteq> Unavailable"
    and "CHR 0x0A \<notin> set (playerName (result s))"
  shows
  "(outcome_of (poll rnd s t) \<noteq> None \<longrightarrow>
      (\<exists>r. loadProgress (saveFile (tick_step rnd s t)) = Some r \<and>
           remainingSecondsForCurrent r = 0 \<and> res_score r = score (tick_step rnd s t)) \<and>
      (getIntInRange 1 4 inp = Some (3, inp1) \<and> getIntInRange 1 5 inp1 = Some (cat, inp2) \<longrightarrow>
         (\<exists>m. main_round (saveFile (tick_step rnd s t)) inp = Some m \<and>
              hd (printed m) = ''Found saved progress for player: '' @ playerName (result s) @
                                 '' | Score so far: '' @ show_int (score (tick_step rnd s t))))) \<and>
   ((\<exists>s1. poll rnd s t = Continue s1) \<longrightarrow>
      saveFile (tick_step rnd s t) = saveFile s \<and> score (tick_step rnd s t) = score s \<and>
      qi (tick_step rnd s t) = qi s) \<and>
   ((\<exists>s1. poll rnd s t = Redraw s1) \<and>
    max 0 (endTime (state_of (poll rnd s t)) - t_rem t) \<le> 2 ^ 31 - 1 \<longrightarrow>
      (\<exists>r. loadProgress (saveFile (tick_step rnd s t)) = Some r \<and>
           remainingSecondsForCurrent r = max 0 (endTime (state_of (poll rnd s t)) - t_rem t) \<and>
           res_score r = score s))"
proof (intro conjI impI)
  assume o: "outcome_of (poll rnd s t) \<noteq> None"
  from snapshot_after_completion [OF assms o] obtain r where
    r: "loadProgress (saveFile (tick_step rnd s t)) = Some r" "remainingSecondsForCurrent r = 0"
       "res_score r = score (tick_step rnd s t)" "playerName r = playerName (result s)" by blast
  then show "\<exists>r. loadProgress (saveFile (tick_step rnd s t)) = Some r \<and>
           remainingSecondsForCurrent r = 0 \<and> res_score r = score (tick_step rnd s t)" by blast
  assume "getIntInRange 1 4 inp = Some (3, inp1) \<and> getIntInRange 1 5 inp1 = Some (cat, inp2)"
  then show "\<exists>m. main_round (saveFile (tick_step rnd s t)) inp = Some m \<and>
              hd (printed m) = ''Found saved progress for player: '' @ playerName (result s) @
                                 '' | Score so far: '' @ show_int (score (tick_step rnd s t))"
    using resume_prints_score [of inp inp1 cat inp2 "saveFile (tick_step rnd s t)" r] r by auto
next
  assume "\<exists>s1. poll rnd s t = Continue s1"
  then obtain s1 where p: "poll rnd s t = Continue s1" by blast
  have s1: "s1 = state_of (poll rnd s t)" using p by simp
  note F = poll_file_frame [of rnd s t, folded s1]
  note B = poll_Continue_board [OF p]
  show "saveFile (tick_step rnd s t) = saveFile s" "score (tick_step rnd s t) = score s"
    "qi (tick_step rnd s t) = qi s"
    using F B by (simp_all add: tick_step_Continue [OF assms(1) p] board_def)
next
  assume a: "(\<exists>s1. poll rnd s t = Redraw s1) \<and>
    max 0 (endTime (state_of (poll rnd s t)) - t_rem t) \<le> 2 ^ 31 - 1"
  then obtain s1 where p: "poll rnd s t = Redraw s1" by blast
  have s1: "state_of (poll rnd s t) = s1" using p by simp
  show "\<exists>r. loadProgress (saveFile (tick_step rnd s t)) = Some r \<and>
           remainingSecondsForCurrent r = max 0 (endTime (state_of (poll rnd s t)) - t_rem t) \<and>
           res_score r = score s"
    unfolding s1 by (rule snapshot_after_redraw [OF assms p]) (use a s1 in simp)
qed

theorem C9_snapshot_is_last_written_witness:
  "(\<exists>r. loadProgress (saveFile (tick_step (\<lambda>n. n) easy_session (press (CHR ''1'') 0 1001))) = Some r \<and>
        remainingSecondsForCurrent r = 0 \<and>
        res_score r = score (tick_step (\<lambda>n. n) easy_session (press (CHR ''1'') 0 1001))) \<and>
   (\<exists>m. main_round (saveFile (tick_step (\<lambda>n. n) easy_session (press (CHR ''1'') 0 1001)))
           [''3'', ''2'', [], []] = Some m \<and>
        hd (printed m) = ''Found saved progress for player: Ann | Score so far: '' @
                           show_int (score (tick_step (\<lambda>n. n) easy_session (press (CHR ''1'') 0 1001)))) \<and>
   saveFile (tick_step (\<lambda>n. n) easy_session (press (CHR 0x00) 0 1004)) = Absent \<and>
   (\<exists>r. loadProgress (saveFile (tick_step (\<lambda>n. n) easy_session (press (CHR ''L'') 0 1004))) = Some r \<and>
        remainingSecondsForCurrent r = 6 \<and> res_score r = 0)"
proof -
  have h: "qi easy_session < quizCount easy_session" "saveFile easy_session \<noteq> Unavailable"
    "CHR 0x0A \<notin> set (playerName (result easy_session))"
    by (simp_all add: easy_session_fresh easy_session_questions(3))
  have g: "getIntInRange 1 4 [''3'', ''2'', [], []] = Some (3, [''2'', [], []]) \<and>
           getIntInRange 1 5 [''2'', [], []] = Some (2, [[], []])"
    by code_simp
  have i: "\<exists>s1. poll (\<lambda>n. n) easy_session (press (CHR 0x00) 0 1004) = Continue s1"
    using press_idle [where now = 1004 and s = easy_session and rnd = "\<lambda>n. n" and c = 0] by (simp add: easy_session_fresh(5))
  have c: "state_of (poll (\<lambda>n. n) easy_session (press (CHR ''L'') 0 1004)) =
      say ''Lifeline cancelled. Resuming timer.''
       (set_saved_rem (max 0 (endTime easy_session - 1004))
          (easy_session\<lparr>remainingSeconds := max 0 (endTime easy_session - 1004)\<rparr>))"
    "\<exists>s1. poll (\<lambda>n. n) easy_session (press (CHR ''L'') 0 1004) = Redraw s1"
    by (simp_all add: press_cancel)
  have e: "endTime (state_of (poll (\<lambda>n. n) easy_session (press (CHR ''L'') 0 1004))) = 1010"
    by (simp add: c(1) say_def set_saved_rem_def easy_session_fresh(5))
  have t: "t_rem (press (CHR ''L'') 0 1004) = 1004" by (simp add: press_def)
  have b: "score easy_session = 0" using easy_session_fresh(1) by (simp add: board_def)
  show ?thesis
    using C9_snapshot_is_last_written [OF h, where rnd = "\<lambda>n. n" and t = "press (CHR ''1'') 0 1001"
        and inp = "[''3'', ''2'', [], []]" and ?inp1.0 = "[''2'', [], []]" and cat = 2 and ?inp2.0 = "[[], []]"]
      C9_snapshot_is_last_written [OF h, where rnd = "\<lambda>n. n" and t = "press (CHR 0x00) 0 1004"]
      C9_snapshot_is_last_written [OF h, where rnd = "\<lambda>n. n" and t = "press (CHR ''L'') 0 1004"]
      press_answer [where rnd = "\<lambda>n. n" and s = easy_session and c = 0 and now = 1001] g i c(2) e t b
    by (simp add: easy_session_fresh(11,12))
qed

theorem C9_snapshot_counterexample:
  "qi crash_state = 4 \<and> max 0 (endTime crash_state - 1005) = 6 \<and>
   (\<exists>r. loadProgress (saveFile crash_state) = Some r \<and> remainingSecondsForCurrent r = 0) \<and>
   \<not> (\<exists>r. loadProgress (saveFile crash_state) = Some r \<and> remainingSecondsForCurrent r = 6)"
  using crash_state_facts by auto

text \<open>
  C10. A round of the menu loop in which Resume is chosen never calls \<open>startQuiz\<close> and
  never leaves the loop. When no snapshot can be loaded it prints one notice; when one
  is loaded it reads a category and prints the saved name and score, the saved remaining
  seconds and the note that the resume is informational only. The state a quiz starts
  from does not depend on what the save file holds.
\<close>

theorem C10_resume_is_informational:
  assumes "getIntInRange 1 4 inp = Some (3, inp1)"
  shows
  "(\<forall>m. main_round save inp = Some m \<longrightarrow> started m = None \<and> \<not> quit m \<and> \<not> shown_scores m) \<and>
   (loadProgress save = None \<longrightarrow>
      main_round save inp =
        Some \<lparr>printed = [''No saved progress found.''], started = None, shown_scores = False,
              quit = False, rest_input = drop 1 inp1\<rparr>) \<and>
   (loadProgress save = Some r \<and> getIntInRange 1 5 inp1 = Some (cat, inp2) \<longrightarrow>
      (\<exists>m. main_round save inp = Some m \<and> started m = None \<and> \<not> quit m \<and>
           rest_input m = drop 2 inp2 \<and> length (printed m) = 5 \<and>
           printed m ! 0 = ''Found saved progress for player: '' @ playerName r @
                             '' | Score so far: '' @ show_int (res_score r) \<and>
           printed m ! 3 = ''Resuming: player name and score restored. Remaining seconds saved: '' @
                             show_int (remainingSecondsForCurrent r) @ ''s (used for first question).'' \<and>
           printed m ! 4 = ''Note: Fully accurate resume (exact previous question/order) requires more saved state. This simplified resume is informational only.'')) \<and>
   startQuiz_init rnd bank nm diff tc t0 save
     = (startQuiz_init rnd bank nm diff tc t0 Absent)\<lparr>saveFile := save\<rparr>"
proof (intro conjI allI impI)
  fix m assume "main_round save inp = Some m"
  then show "started m = None" "\<not> quit m" "\<not> shown_scores m"
    using assms by (auto simp: main_round_def split: option.splits)
next
  assume "loadProgress save = None"
  then show "main_round save inp =
        Some \<lparr>printed = [''No saved progress found.''], started = None, shown_scores = False,
              quit = False, rest_input = drop 1 inp1\<rparr>"
    using assms by (simp add: main_round_def)
next
  assume "loadProgress save = Some r \<and> getIntInRange 1 5 inp1 = Some (cat, inp2)"
  then show "\<exists>m. main_round save inp = Some m \<and> started m = None \<and> \<not> quit m \<and>
           rest_input m = drop 2 inp2 \<and> length (printed m) = 5 \<and>
           printed m ! 0 = ''Found saved progress for player: '' @ playerName r @
                             '' | Score so far: '' @ show_int (res_score r) \<and>
           printed m ! 3 = ''Resuming: player name and score restored. Remaining seconds saved: '' @
                             show_int (remainingSecondsForCurrent r) @ ''s (used for first question).'' \<and>
           printed m ! 4 = ''Note: Fully accurate resume (exact previous question/order) requires more saved state. This simplified resume is informational only.''"
    using assms by (simp add: main_round_def)
next
  show "startQuiz_init rnd bank nm diff tc t0 save
     = (startQuiz_init rnd bank nm diff tc t0 Absent)\<lparr>saveFile := save\<rparr>"
    by (simp add: startQuiz_init_def begin_question_def Let_def split: prod.splits)
qed

theorem C10_resume_is_informational_witness:
  "main_round Absent [''3'', []] =
     Some \<lparr>printed = [''No saved progress found.''], started = None, shown_scores = False,
           quit = False, rest_input = []\<rparr> \<and>
   (\<exists>m. main_round demo_save [''3'', ''2'', [], []] = Some m \<and> started m = None \<and> \<not> quit m \<and>
        rest_input m = [] \<and>
        printed m ! 0 = ''Found saved progress for player: Ann | Score so far: 25'' \<and>
        printed m ! 3 = ''Resuming: player name and score restored. Remaining seconds saved: 6s (used for first question).'')"
proof -
  have g: "getIntInRange 1 4 [''3'', []] = Some (3, [[]])"
    "getIntInRange 1 4 [''3'', ''2'', [], []] = Some (3, [''2'', [], []])"
    "getIntInRange 1 5 [''2'', [], []] = Some (2, [[], []])"
    by code_simp+
  have l0: "loadProgress Absent = None" by (simp add: loadProgress_def)
  have l1: "loadProgress demo_save = Some (the (loadProgress demo_save))"
    using demo_save_loaded(1) by simp
  have a: "main_round Absent [''3'', []] =
     Some \<lparr>printed = [''No saved progress found.''], started = None, shown_scores = False,
           quit = False, rest_input = []\<rparr>"
    using C10_resume_is_informational [OF g(1), where save = Absent] l0 by simp
  have "\<exists>m. main_round demo_save [''3'', ''2'', [], []] = Some m \<and> started m = None \<and> \<not> quit m \<and>
        rest_input m = [] \<and> length (printed m) = 5 \<and>
        printed m ! 0 = ''Found saved progress for player: Ann | Score so far: 25'' \<and>
        printed m ! 3 = ''Resuming: player name and score restored. Remaining seconds saved: 6s (used for first question).'' \<and>
        printed m ! 4 = ''Note: Fully accurate resume (exact previous question/order) requires more saved state. This simplified resume is informational only.''"
    using C10_resume_is_informational [OF g(2), where save = demo_save
        and r = "the (loadProgress demo_save)" and cat = 2 and ?inp2.0 = "[[], []]"]
      l1 g(3) demo_save_loaded(2-7)
    by simp
  then obtain m where "main_round demo_save [''3'', ''2'', [], []] = Some m" "started m = None"
    "\<not> quit m" "rest_input m = []"
    "printed m ! 0 = ''Found saved progress for player: Ann | Score so far: 25''"
    "printed m ! 3 = ''Resuming: player name and score restored. Remaining seconds saved: 6s (used for first question).''"
    by blast
  then show ?thesis using a by blast
qed

end
